theory Spec2Isabelle
  imports Complex_Main
begin

section \<open>Double-precision rounding\<close>

text \<open>
  A JavaScript number is an IEEE 754 binary64 value, and every arithmetic operation of
  the source rounds its exact result to the nearest such value, ties to the even
  significand. \<open>round64\<close> is that rounding on the reals: a value with binary exponent
  \<open>e\<close> is rounded to a multiple of \<open>2 powi (e - 52)\<close>, and to a multiple of
  \<open>2 powi (- 1074)\<close> in the subnormal range. The source's \<open>Infinity\<close> and \<open>NaN\<close>
  are not represented: \<open>round64 x\<close> is the value of the source for \<open>\<bar>x\<bar>\<close> below
  \<open>2 ^ 1024 - 2 ^ 970\<close>, where the source does not overflow. The two zeros of the format
  are one value here; no operation of the source tells them apart.
\<close>

text \<open>The nearest integer, a half going to the even neighbour.\<close>

definition rhe :: "real \<Rightarrow> int" where
  "rhe y = (let f = \<lfloor>y\<rfloor>; d = y - of_int f
            in if d < 1 / 2 then f else if 1 / 2 < d then f + 1
               else if even f then f else f + 1)"

text \<open>
  The binary exponent \<open>\<lfloor>log\<^sub>2 x\<rfloor>\<close> of a positive \<open>x\<close>, by halving or doubling; the
  first argument bounds the number of steps, and 1100 steps reach every exponent of the
  format, from -1074 to 1023.
\<close>

primrec expo_up :: "nat \<Rightarrow> real \<Rightarrow> int" where
  "expo_up 0 x = 0"
| "expo_up (Suc n) x = (if 2 \<le> x then expo_up n (x / 2) + 1 else 0)"

primrec expo_down :: "nat \<Rightarrow> real \<Rightarrow> int" where
  "expo_down 0 x = 0"
| "expo_down (Suc n) x = (if x < 1 then expo_down n (2 * x) - 1 else 0)"

definition expo :: "real \<Rightarrow> int" where
  "expo x = (if 1 \<le> x then expo_up 1100 x else expo_down 1100 x)"

definition round64 :: "real \<Rightarrow> real" where
  "round64 x =
     (if x = 0 then 0
      else let a = \<bar>x\<bar>;
               q = max (expo a - 52) (- 1074)
           in sgn x * of_int (rhe (a / 2 powi q)) * 2 powi q)"

section \<open>RR classifier (lipponen.js)\<close>

text \<open>
  The classifier is given twice. First over the reals: every sum, quotient and comparison
  of the source is the exact one. Then, after \<open>analyzeRR\<close>, with every arithmetic
  operation rounded to a double, as the source computes it. Arrays are lists, indexed from
  0. The datatype of artifact labels has one constructor for each string the source uses
  as a label; \<open>missed_inserted\<close> is the label the post-processor gives to a synthetic
  beat.
\<close>

datatype artifact_type =
  ANone | Ectopic | Missed | MissedInserted | Extra | ExtraAbsorbed | Longshort

record result =
  rr_clean :: "real option"
  artifact_type :: artifact_type

record stats =
  total :: nat
  artifacts :: nat
  ectopic :: nat
  missed :: nat
  extra :: nat
  longshort :: nat

record analysis =
  results :: "result list"
  cleanSeries :: "real list"
  stats :: stats

definition THRESHOLD_FACTOR :: real where "THRESHOLD_FACTOR = 5.2"
definition QD_WINDOW :: nat where "QD_WINDOW = 91"
definition MEDIAN_WINDOW :: nat where "MEDIAN_WINDOW = 11"
definition C1 :: real where "C1 = 0.13"
definition C2 :: real where "C2 = 0.17"
definition MIN_THRESHOLD :: real where "MIN_THRESHOLD = 50"

text \<open>\<open>arr.slice(start, end)\<close> for \<open>0 \<le> start\<close>, \<open>end \<le> arr.length\<close>.\<close>

definition slice :: "'a list \<Rightarrow> nat \<Rightarrow> nat \<Rightarrow> 'a list" where
  "slice arr start end = take (end - start) (drop start arr)"

definition median :: "real list \<Rightarrow> real" where
  "median arr =
     (if length arr = 0 then 0
      else let sorted = sort arr; mid = length sorted div 2
           in if length sorted mod 2 \<noteq> 0 then sorted ! mid
              else (sorted ! (mid - 1) + sorted ! mid) / 2)"

definition quantile :: "real list \<Rightarrow> real \<Rightarrow> real" where
  "quantile arr q =
     (if length arr = 0 then 0
      else let sorted = sort arr;
               pos = real (length sorted - 1) * q;
               base = nat \<lfloor>pos\<rfloor>;
               rest = pos - real base
           in if base + 1 < length sorted
              then sorted ! base + rest * (sorted ! (base + 1) - sorted ! base)
              else sorted ! base)"

definition quartileDeviation :: "real list \<Rightarrow> real" where
  "quartileDeviation arr = (quantile arr 0.75 - quantile arr 0.25) / 2"

text \<open>
  The centred rolling window: \<open>Math.max(0, i - half)\<close> is the truncating subtraction
  of the naturals.
\<close>

definition rollingCentered :: "real list \<Rightarrow> nat \<Rightarrow> (real list \<Rightarrow> real) \<Rightarrow> real list" where
  "rollingCentered arr windowSize fn =
     (let half = windowSize div 2
      in map (\<lambda>i. let start = i - half;
                       end = min (length arr) (i + half + 1)
                   in fn (slice arr start end)) [0..<length arr])"

definition threshold :: "real list \<Rightarrow> real" where
  "threshold window = (let qd = quartileDeviation window
                       in max (THRESHOLD_FACTOR * qd) MIN_THRESHOLD)"

subsection \<open>Steps 1 to 7: the derived series\<close>

definition dRR_of :: "real list \<Rightarrow> real list" where
  "dRR_of rr =
     (let n = length rr;
          tl = map (\<lambda>i. rr ! i - rr ! (i - 1)) [1..<n];
          drrSum = sum_list tl
      in (drrSum / real (n - 1)) # tl)"

definition mRR_of :: "real list \<Rightarrow> real list \<Rightarrow> real list" where
  "mRR_of rr medrr =
     map (\<lambda>i. let m = rr ! i - medrr ! i in if m < 0 then m * 2 else m) [0..<length rr]"

definition normalize :: "real list \<Rightarrow> real list \<Rightarrow> real list" where
  "normalize ds th = map (\<lambda>i. ds ! i / th ! i) [0..<length ds]"

definition s12_of :: "nat \<Rightarrow> real list \<Rightarrow> real list" where
  "s12_of n drrs =
     map (\<lambda>i. if 1 \<le> i \<and> i < n - 1
              then (if drrs ! i > 0 then max (drrs ! (i - 1)) (drrs ! (i + 1))
                    else if drrs ! i < 0 then min (drrs ! (i - 1)) (drrs ! (i + 1))
                    else 0)
              else 0) [0..<n]"

definition s22_of :: "nat \<Rightarrow> real list \<Rightarrow> real list" where
  "s22_of n drrs =
     map (\<lambda>i. if i < n - 2
              then (if drrs ! i \<ge> 0 then min (drrs ! (i + 1)) (drrs ! (i + 2))
                    else max (drrs ! (i + 1)) (drrs ! (i + 2)))
              else 0) [0..<n]"

subsection \<open>Step 8: the classification walk\<close>

text \<open>The arrays the loop body reads, and the loop's variables.\<close>

record walk_ctx =
  c_n :: nat
  c_rr :: "real list"
  c_medrr :: "real list"
  c_th2 :: "real list"
  c_drrs :: "real list"
  c_mrrs :: "real list"
  c_s12 :: "real list"
  c_s22 :: "real list"

record walk_state =
  w_i :: nat
  classifications :: "artifact_type list"
  ectopicPairs :: "(nat \<times> nat) list"

definition isEctopic :: "walk_ctx \<Rightarrow> nat \<Rightarrow> bool" where
  "isEctopic c i =
     ((c_drrs c ! i > 1 \<and> c_s12 c ! i < - C1 * (c_drrs c ! i) - C2) \<or>
      (c_drrs c ! i < - 1 \<and> c_s12 c ! i > - C1 * (c_drrs c ! i) + C2))"

definition candidates :: "walk_ctx \<Rightarrow> nat \<Rightarrow> nat list" where
  "candidates c i =
     i # (if i + 2 < c_n c \<and> \<bar>c_drrs c ! (i + 1)\<bar> < \<bar>c_drrs c ! (i + 2)\<bar>
          then [i + 1] else [])"

definition extra_test :: "walk_ctx \<Rightarrow> nat \<Rightarrow> bool" where
  "extra_test c j =
     (j < c_n c - 1 \<and> c_drrs c ! j < - 1 \<and> c_s22 c ! j > 1 \<and>
      \<bar>c_rr c ! j + c_rr c ! (j + 1) - c_medrr c ! j\<bar> < c_th2 c ! j)"

definition missed_test :: "walk_ctx \<Rightarrow> nat \<Rightarrow> bool" where
  "missed_test c j =
     (c_drrs c ! j > 1 \<and> c_s22 c ! j < - 1 \<and>
      \<bar>c_rr c ! j / 2 - c_medrr c ! j\<bar> < c_th2 c ! j)"

text \<open>
  The \<open>for (const j of candidates)\<close> loop: the first candidate that passes a test
  sets the labels and the next index, and breaks; \<open>None\<close> is \<open>found = false\<close>.
\<close>

fun try_candidates ::
  "walk_ctx \<Rightarrow> artifact_type list \<Rightarrow> nat list \<Rightarrow> (artifact_type list \<times> nat) option" where
  "try_candidates c cls [] = None"
| "try_candidates c cls (j # js) =
     (if extra_test c j then Some (cls[j := Extra, j + 1 := ExtraAbsorbed], j + 2)
      else if missed_test c j then Some (cls[j := Missed], j + 2)
      else try_candidates c cls js)"

text \<open>One iteration of \<open>while (i < n - 2)\<close>.\<close>

definition walk_step :: "walk_ctx \<Rightarrow> walk_state \<Rightarrow> walk_state" where
  "walk_step c s =
     (let i = w_i s in
      if \<bar>c_drrs c ! i\<bar> \<le> 1 then s\<lparr>w_i := i + 1\<rparr>
      else if isEctopic c i then
        (if i > 0 then s\<lparr>w_i := i + 2, ectopicPairs := ectopicPairs s @ [(i - 1, i)]\<rparr>
         else s\<lparr>w_i := i + 2, classifications := (classifications s)[i := Longshort]\<rparr>)
      else if \<bar>c_drrs c ! i\<bar> > 1 \<or> \<bar>c_mrrs c ! i\<bar> > 3 then
        (case try_candidates c (classifications s) (candidates c i) of
           Some (cls, i') \<Rightarrow> s\<lparr>w_i := i', classifications := cls\<rparr>
         | None \<Rightarrow> s\<lparr>w_i := i + 1, classifications := (classifications s)[i := Longshort]\<rparr>)
      else s\<lparr>w_i := i + 1\<rparr>)"

lemma try_candidates_next:
  "try_candidates c cls js = Some (cls', i') \<Longrightarrow> \<exists>j \<in> set js. i' = j + 2"
  by (induction js) (auto split: if_splits)

lemma walk_step_advances: "w_i s < w_i (walk_step c s)"
proof -
  have "\<And>cls i'. try_candidates c (classifications s) (candidates c (w_i s)) = Some (cls, i')
          \<Longrightarrow> w_i s < i'"
    by (drule try_candidates_next) (auto simp: candidates_def split: if_splits)
  then show ?thesis
    by (auto simp: walk_step_def Let_def split: option.splits)
qed

function walk :: "walk_ctx \<Rightarrow> walk_state \<Rightarrow> walk_state" where
  "walk c s = (if w_i s < c_n c - 2 then walk c (walk_step c s) else s)"
  by pat_completeness auto
termination
proof (relation "measure (\<lambda>(c, s). c_n c - 2 - w_i s)")
  show "wf (measure (\<lambda>(c, s). c_n c - 2 - w_i s))" by simp
next
  fix c :: walk_ctx and s :: walk_state
  assume "w_i s < c_n c - 2"
  moreover have "w_i s < w_i (walk_step c s)" by (rule walk_step_advances)
  ultimately show "((c, walk_step c s), (c, s)) \<in> measure (\<lambda>(c, s). c_n c - 2 - w_i s)"
    by simp
qed

declare walk.simps [simp del]

subsection \<open>Steps 9 and 10: corrections, clean series, statistics\<close>

definition correct1 ::
  "nat \<Rightarrow> real list \<Rightarrow> real list \<Rightarrow> artifact_type list \<Rightarrow> nat \<Rightarrow> result" where
  "correct1 n rr medrr cls idx =
     \<lparr>rr_clean =
        (case cls ! idx of
           Missed \<Rightarrow> Some (rr ! idx / 2)
         | Extra \<Rightarrow> (if idx + 1 < n then Some (rr ! idx + rr ! (idx + 1)) else Some (rr ! idx))
         | ExtraAbsorbed \<Rightarrow> None
         | Longshort \<Rightarrow> Some (medrr ! idx)
         | _ \<Rightarrow> Some (rr ! idx)),
      artifact_type = cls ! idx\<rparr>"

fun apply_ectopic :: "real list \<Rightarrow> result list \<Rightarrow> (nat \<times> nat) list \<Rightarrow> result list" where
  "apply_ectopic rr res [] = res"
| "apply_ectopic rr res ((a, b) # ps) =
     (let avg = (rr ! a + rr ! b) / 2
      in apply_ectopic rr
           (res[a := \<lparr>rr_clean = Some avg, artifact_type = Ectopic\<rparr>,
                b := \<lparr>rr_clean = Some avg, artifact_type = Ectopic\<rparr>]) ps)"

fun build_clean :: "result list \<Rightarrow> real list" where
  "build_clean [] = []"
| "build_clean (r # rs) =
     (case rr_clean r of
        None \<Rightarrow> build_clean rs
      | Some v \<Rightarrow> (if artifact_type r = Missed then v # v # build_clean rs
                  else v # build_clean rs))"

definition count_type :: "artifact_type \<Rightarrow> result list \<Rightarrow> nat" where
  "count_type t rs = length (filter (\<lambda>r. artifact_type r = t) rs)"

definition stats_of :: "nat \<Rightarrow> result list \<Rightarrow> stats" where
  "stats_of n rs =
     \<lparr>total = n,
      artifacts = count_type Ectopic rs + count_type Missed rs + count_type Extra rs
                  + count_type Longshort rs,
      ectopic = count_type Ectopic rs,
      missed = count_type Missed rs,
      extra = count_type Extra rs,
      longshort = count_type Longshort rs\<rparr>"

subsection \<open>analyzeRR\<close>

definition make_ctx :: "real list \<Rightarrow> walk_ctx" where
  "make_ctx rr =
     (let n = length rr;
          dRR = dRR_of rr;
          th1 = rollingCentered dRR QD_WINDOW threshold;
          medrr = rollingCentered rr MEDIAN_WINDOW median;
          mRR = mRR_of rr medrr;
          th2 = rollingCentered mRR QD_WINDOW threshold;
          drrs = normalize dRR th1;
          mrrs = normalize mRR th2
      in \<lparr>c_n = n, c_rr = rr, c_medrr = medrr, c_th2 = th2, c_drrs = drrs, c_mrrs = mrrs,
          c_s12 = s12_of n drrs, c_s22 = s22_of n drrs\<rparr>)"

definition walk_init :: "nat \<Rightarrow> walk_state" where
  "walk_init n = \<lparr>w_i = 0, classifications = replicate n ANone, ectopicPairs = []\<rparr>"

definition analyzeRR :: "real list \<Rightarrow> analysis" where
  "analyzeRR rrIntervals =
     (let n = length rrIntervals in
      if n < 4 then
        \<lparr>results = map (\<lambda>rr. \<lparr>rr_clean = Some rr, artifact_type = ANone\<rparr>) rrIntervals,
         cleanSeries = rrIntervals,
         stats = \<lparr>total = n, artifacts = 0, ectopic = 0, missed = 0, extra = 0,
                  longshort = 0\<rparr>\<rparr>
      else
        let c = make_ctx rrIntervals;
            w = walk c (walk_init n);
            res0 = map (correct1 n rrIntervals (c_medrr c) (classifications w)) [0..<n];
            res = apply_ectopic rrIntervals res0 (ectopicPairs w)
        in \<lparr>results = res, cleanSeries = build_clean res, stats = stats_of n res\<rparr>)"

subsection \<open>The classifier with rounded arithmetic\<close>

text \<open>
  The same program with the result of every addition, subtraction, multiplication and
  division passed through \<open>fl\<close>, and with the decimal literals 5.2, 0.13 and 0.17 read
  through \<open>fl\<close> (the literals 0.25, 0.75, 2 and 50 are doubles). Comparisons, negation,
  \<open>Math.abs\<close>, \<open>Math.max\<close>, \<open>Math.min\<close> and \<open>Math.floor\<close> are exact, and so is the
  order in which \<open>sort\<close> puts doubles. With the identity for \<open>fl\<close> this is the
  classifier over the reals above; with \<open>round64\<close> it is the classifier as it runs,
  \<open>analyzeRR64\<close>, for inputs on which no operation overflows.
\<close>

definition median_fl :: "(real \<Rightarrow> real) \<Rightarrow> real list \<Rightarrow> real" where
  "median_fl fl arr =
     (if length arr = 0 then 0
      else let sorted = sort arr; mid = length sorted div 2
           in if length sorted mod 2 \<noteq> 0 then sorted ! mid
              else fl (fl (sorted ! (mid - 1) + sorted ! mid) / 2))"

definition quantile_fl :: "(real \<Rightarrow> real) \<Rightarrow> real list \<Rightarrow> real \<Rightarrow> real" where
  "quantile_fl fl arr q =
     (if length arr = 0 then 0
      else let sorted = sort arr;
               pos = fl (real (length sorted - 1) * q);
               base = nat \<lfloor>pos\<rfloor>;
               rest = fl (pos - real base)
           in if base + 1 < length sorted
              then fl (sorted ! base + fl (rest * fl (sorted ! (base + 1) - sorted ! base)))
              else sorted ! base)"

definition quartileDeviation_fl :: "(real \<Rightarrow> real) \<Rightarrow> real list \<Rightarrow> real" where
  "quartileDeviation_fl fl arr =
     fl (fl (quantile_fl fl arr 0.75 - quantile_fl fl arr 0.25) / 2)"

definition threshold_fl :: "(real \<Rightarrow> real) \<Rightarrow> real list \<Rightarrow> real" where
  "threshold_fl fl window = (let qd = quartileDeviation_fl fl window
                             in max (fl (fl THRESHOLD_FACTOR * qd)) MIN_THRESHOLD)"

definition dRR_of_fl :: "(real \<Rightarrow> real) \<Rightarrow> real list \<Rightarrow> real list" where
  "dRR_of_fl fl rr =
     (let n = length rr;
          tl = map (\<lambda>i. fl (rr ! i - rr ! (i - 1))) [1..<n];
          drrSum = foldl (\<lambda>s d. fl (s + d)) 0 tl
      in fl (drrSum / real (n - 1)) # tl)"

definition mRR_of_fl :: "(real \<Rightarrow> real) \<Rightarrow> real list \<Rightarrow> real list \<Rightarrow> real list" where
  "mRR_of_fl fl rr medrr =
     map (\<lambda>i. let m = fl (rr ! i - medrr ! i) in if m < 0 then fl (m * 2) else m)
       [0..<length rr]"

definition normalize_fl :: "(real \<Rightarrow> real) \<Rightarrow> real list \<Rightarrow> real list \<Rightarrow> real list" where
  "normalize_fl fl ds th = map (\<lambda>i. fl (ds ! i / th ! i)) [0..<length ds]"

definition isEctopic_fl :: "(real \<Rightarrow> real) \<Rightarrow> walk_ctx \<Rightarrow> nat \<Rightarrow> bool" where
  "isEctopic_fl fl c i =
     ((c_drrs c ! i > 1 \<and> c_s12 c ! i < fl (fl (- fl C1 * (c_drrs c ! i)) - fl C2)) \<or>
      (c_drrs c ! i < - 1 \<and> c_s12 c ! i > fl (fl (- fl C1 * (c_drrs c ! i)) + fl C2)))"

definition extra_test_fl :: "(real \<Rightarrow> real) \<Rightarrow> walk_ctx \<Rightarrow> nat \<Rightarrow> bool" where
  "extra_test_fl fl c j =
     (j < c_n c - 1 \<and> c_drrs c ! j < - 1 \<and> c_s22 c ! j > 1 \<and>
      \<bar>fl (fl (c_rr c ! j + c_rr c ! (j + 1)) - c_medrr c ! j)\<bar> < c_th2 c ! j)"

definition missed_test_fl :: "(real \<Rightarrow> real) \<Rightarrow> walk_ctx \<Rightarrow> nat \<Rightarrow> bool" where
  "missed_test_fl fl c j =
     (c_drrs c ! j > 1 \<and> c_s22 c ! j < - 1 \<and>
      \<bar>fl (fl (c_rr c ! j / 2) - c_medrr c ! j)\<bar> < c_th2 c ! j)"

fun try_candidates_fl ::
  "(real \<Rightarrow> real) \<Rightarrow> walk_ctx \<Rightarrow> artifact_type list \<Rightarrow> nat list
     \<Rightarrow> (artifact_type list \<times> nat) option" where
  "try_candidates_fl fl c cls [] = None"
| "try_candidates_fl fl c cls (j # js) =
     (if extra_test_fl fl c j then Some (cls[j := Extra, j + 1 := ExtraAbsorbed], j + 2)
      else if missed_test_fl fl c j then Some (cls[j := Missed], j + 2)
      else try_candidates_fl fl c cls js)"

definition walk_step_fl :: "(real \<Rightarrow> real) \<Rightarrow> walk_ctx \<Rightarrow> walk_state \<Rightarrow> walk_state" where
  "walk_step_fl fl c s =
     (let i = w_i s in
      if \<bar>c_drrs c ! i\<bar> \<le> 1 then s\<lparr>w_i := i + 1\<rparr>
      else if isEctopic_fl fl c i then
        (if i > 0 then s\<lparr>w_i := i + 2, ectopicPairs := ectopicPairs s @ [(i - 1, i)]\<rparr>
         else s\<lparr>w_i := i + 2, classifications := (classifications s)[i := Longshort]\<rparr>)
      else if \<bar>c_drrs c ! i\<bar> > 1 \<or> \<bar>c_mrrs c ! i\<bar> > 3 then
        (case try_candidates_fl fl c (classifications s) (candidates c i) of
           Some (cls, i') \<Rightarrow> s\<lparr>w_i := i', classifications := cls\<rparr>
         | None \<Rightarrow> s\<lparr>w_i := i + 1, classifications := (classifications s)[i := Longshort]\<rparr>)
      else s\<lparr>w_i := i + 1\<rparr>)"

lemma try_candidates_fl_next:
  "try_candidates_fl fl c cls js = Some (cls', i') \<Longrightarrow> \<exists>j \<in> set js. i' = j + 2"
  by (induction js) (auto split: if_splits)

lemma walk_step_fl_advances: "w_i s < w_i (walk_step_fl fl c s)"
proof -
  have "\<And>cls i'. try_candidates_fl fl c (classifications s) (candidates c (w_i s)) = Some (cls, i')
          \<Longrightarrow> w_i s < i'"
    by (drule try_candidates_fl_next) (auto simp: candidates_def split: if_splits)
  then show ?thesis
    by (auto simp: walk_step_fl_def Let_def split: option.splits)
qed

function walk_fl :: "(real \<Rightarrow> real) \<Rightarrow> walk_ctx \<Rightarrow> walk_state \<Rightarrow> walk_state" where
  "walk_fl fl c s = (if w_i s < c_n c - 2 then walk_fl fl c (walk_step_fl fl c s) else s)"
  by pat_completeness auto
termination
proof (relation "measure (\<lambda>(fl, c, s). c_n c - 2 - w_i s)")
  show "wf (measure (\<lambda>(fl, c, s). c_n c - 2 - w_i s))" by simp
next
  fix fl :: "real \<Rightarrow> real" and c :: walk_ctx and s :: walk_state
  assume "w_i s < c_n c - 2"
  moreover have "w_i s < w_i (walk_step_fl fl c s)" by (rule walk_step_fl_advances)
  ultimately show "((fl, c, walk_step_fl fl c s), (fl, c, s))
      \<in> measure (\<lambda>(fl, c, s). c_n c - 2 - w_i s)"
    by simp
qed

declare walk_fl.simps [simp del]

definition correct1_fl ::
  "(real \<Rightarrow> real) \<Rightarrow> nat \<Rightarrow> real list \<Rightarrow> real list \<Rightarrow> artifact_type list \<Rightarrow> nat
     \<Rightarrow> result" where
  "correct1_fl fl n rr medrr cls idx =
     \<lparr>rr_clean =
        (case cls ! idx of
           Missed \<Rightarrow> Some (fl (rr ! idx / 2))
         | Extra \<Rightarrow> (if idx + 1 < n then Some (fl (rr ! idx + rr ! (idx + 1)))
                     else Some (rr ! idx))
         | ExtraAbsorbed \<Rightarrow> None
         | Longshort \<Rightarrow> Some (medrr ! idx)
         | _ \<Rightarrow> Some (rr ! idx)),
      artifact_type = cls ! idx\<rparr>"

fun apply_ectopic_fl ::
  "(real \<Rightarrow> real) \<Rightarrow> real list \<Rightarrow> result list \<Rightarrow> (nat \<times> nat) list \<Rightarrow> result list" where
  "apply_ectopic_fl fl rr res [] = res"
| "apply_ectopic_fl fl rr res ((a, b) # ps) =
     (let avg = fl (fl (rr ! a + rr ! b) / 2)
      in apply_ectopic_fl fl rr
           (res[a := \<lparr>rr_clean = Some avg, artifact_type = Ectopic\<rparr>,
                b := \<lparr>rr_clean = Some avg, artifact_type = Ectopic\<rparr>]) ps)"

definition make_ctx_fl :: "(real \<Rightarrow> real) \<Rightarrow> real list \<Rightarrow> walk_ctx" where
  "make_ctx_fl fl rr =
     (let n = length rr;
          dRR = dRR_of_fl fl rr;
          th1 = rollingCentered dRR QD_WINDOW (threshold_fl fl);
          medrr = rollingCentered rr MEDIAN_WINDOW (median_fl fl);
          mRR = mRR_of_fl fl rr medrr;
          th2 = rollingCentered mRR QD_WINDOW (threshold_fl fl);
          drrs = normalize_fl fl dRR th1;
          mrrs = normalize_fl fl mRR th2
      in \<lparr>c_n = n, c_rr = rr, c_medrr = medrr, c_th2 = th2, c_drrs = drrs, c_mrrs = mrrs,
          c_s12 = s12_of n drrs, c_s22 = s22_of n drrs\<rparr>)"

definition analyzeRR_fl :: "(real \<Rightarrow> real) \<Rightarrow> real list \<Rightarrow> analysis" where
  "analyzeRR_fl fl rrIntervals =
     (let n = length rrIntervals in
      if n < 4 then
        \<lparr>results = map (\<lambda>rr. \<lparr>rr_clean = Some rr, artifact_type = ANone\<rparr>) rrIntervals,
         cleanSeries = rrIntervals,
         stats = \<lparr>total = n, artifacts = 0, ectopic = 0, missed = 0, extra = 0,
                  longshort = 0\<rparr>\<rparr>
      else
        let c = make_ctx_fl fl rrIntervals;
            w = walk_fl fl c (walk_init n);
            res0 = map (correct1_fl fl n rrIntervals (c_medrr c) (classifications w)) [0..<n];
            res = apply_ectopic_fl fl rrIntervals res0 (ectopicPairs w)
        in \<lparr>results = res, cleanSeries = build_clean res, stats = stats_of n res\<rparr>)"

definition analyzeRR64 :: "real list \<Rightarrow> analysis" where
  "analyzeRR64 = analyzeRR_fl round64"

text \<open>
  \<open>Number.MIN_VALUE\<close>, the smallest positive double, and a series of five intervals
  that starts with a very short one.
\<close>

definition MIN_VALUE :: real where
  "MIN_VALUE = 2 powi (- 1074)"

definition rr_tiny :: "real \<Rightarrow> real list" where
  "rr_tiny v = [v, 80, 10, 80, 300]"

subsection \<open>Invariants of the walk and of the corrections\<close>

text \<open>
  What the walk maintains: the labels stay one per beat, the label of a synthetic beat
  never appears, and every ectopic pair lies within the array.
\<close>

definition walk_inv :: "nat \<Rightarrow> walk_state \<Rightarrow> bool" where
  "walk_inv n s =
     (length (classifications s) = n \<and> MissedInserted \<notin> set (classifications s)
      \<and> (\<forall>p \<in> set (ectopicPairs s). fst p < n \<and> snd p < n))"

text \<open>
  A result is labelled consistently when it is not a synthetic beat and its value is null
  exactly for an absorbed beat; it is positive when its value, if any, is.
\<close>

definition labelled :: "result \<Rightarrow> bool" where
  "labelled r =
     (artifact_type r \<noteq> MissedInserted
      \<and> (rr_clean r = None \<longleftrightarrow> artifact_type r = ExtraAbsorbed))"

definition positive :: "result \<Rightarrow> bool" where
  "positive r = (\<forall>v. rr_clean r = Some v \<longrightarrow> 0 < v)"

text \<open>
  What the walk maintains once it has labelled the first beat \<open>missed\<close> and moved on:
  the label of the first beat, and that no ectopic pair holds the index 0.
\<close>

definition first_missed :: "walk_state \<Rightarrow> bool" where
  "first_missed s =
     (2 \<le> w_i s \<and> classifications s ! 0 = Missed
      \<and> (\<forall>p \<in> set (ectopicPairs s). 0 < fst p \<and> 0 < snd p))"

section \<open>HRV metrics (hrv.js)\<close>

record hrv =
  rmssd :: "real option"
  sdnn :: "real option"
  pnn50 :: "real option"

text \<open>\<open>Math.round\<close>: the nearest integer, halves upwards.\<close>

definition js_round :: "real \<Rightarrow> real" where
  "js_round x = of_int \<lfloor>x + 1 / 2\<rfloor>"

definition calculateHRV :: "real list \<Rightarrow> hrv" where
  "calculateHRV rrIntervals =
     (if length rrIntervals < 2 then \<lparr>rmssd = None, sdnn = None, pnn50 = None\<rparr>
      else
        let successiveDiffs =
              map (\<lambda>i. rrIntervals ! i - rrIntervals ! (i - 1)) [1..<length rrIntervals];
            squaredDiffs = map (\<lambda>d. d * d) successiveDiffs;
            meanSquaredDiff = sum_list squaredDiffs / real (length squaredDiffs);
            v_rmssd = sqrt meanSquaredDiff;
            meanRR = sum_list rrIntervals / real (length rrIntervals);
            squaredDeviations = map (\<lambda>rr. (rr - meanRR) ^ 2) rrIntervals;
            variance = sum_list squaredDeviations / real (length rrIntervals);
            v_sdnn = sqrt variance;
            nn50Count = length (filter (\<lambda>d. \<bar>d\<bar> > 50) successiveDiffs);
            v_pnn50 = (real nn50Count / real (length successiveDiffs)) * 100
        in \<lparr>rmssd = Some (js_round (v_rmssd * 100) / 100),
            sdnn = Some (js_round (v_sdnn * 100) / 100),
            pnn50 = Some (js_round (v_pnn50 * 100) / 100)\<rparr>)"

section \<open>Post-processor state (postprocessor.js)\<close>

record pp_device_state =
  lastProcessedMs :: real

type_synonym pp_state = "string \<rightharpoonup> pp_device_state"

text \<open>
  \<open>registerDevice\<close>: \<open>lastProcessed\<close> is the answer of
  \<open>writers.queryLastProcessedTime\<close> (null when nothing was processed yet or the query
  failed), \<open>now\<close> is \<open>Date.now()\<close>.
\<close>

definition registerDevice :: "pp_state \<Rightarrow> string \<Rightarrow> real option \<Rightarrow> real \<Rightarrow> pp_state" where
  "registerDevice ds device lastProcessed now =
     (if device \<in> dom ds then ds
      else ds(device \<mapsto>
             \<lparr>lastProcessedMs = (case lastProcessed of None \<Rightarrow> now | Some t \<Rightarrow> t)\<rparr>))"

text \<open>
  \<open>new Date(t).toISOString()\<close> throws a \<open>RangeError\<close> when \<open>t\<close> is not a time
  value: a \<open>Date\<close> holds at most 8.64e15 milliseconds on either side of the epoch.
\<close>

datatype exception = RangeError

definition valid_date :: "real \<Rightarrow> bool" where
  "valid_date t = (\<bar>t\<bar> \<le> 8640000000000000)"

text \<open>
  \<open>triggerReprocess\<close>: the log line of the branch formats \<open>fromMs\<close> as an ISO date
  before the assignment, so a \<open>fromMs\<close> that is no time value leaves the function by
  the exception, with the state as it was.
\<close>

definition triggerReprocess ::
  "pp_state \<Rightarrow> string \<Rightarrow> real \<Rightarrow> exception option \<times> pp_state" where
  "triggerReprocess ds device fromMs =
     (case ds device of
        None \<Rightarrow> (None, ds)
      | Some state \<Rightarrow>
          if fromMs < lastProcessedMs state
          then if valid_date fromMs
               then (None, ds(device \<mapsto> state\<lparr>lastProcessedMs := fromMs\<rparr>))
               else (Some RangeError, ds)
          else (None, ds))"

section \<open>Ingest handlers (server.js, influx.js)\<close>

subsection \<open>The store as the handlers see it\<close>

text \<open>
  A point of the measurement \<open>polar_raw\<close> as \<open>writeRawBeat\<close> and
  \<open>writeRawBatch\<close> hand it to \<open>influx.writePoints\<close>, and a point of
  \<open>polar_realtime\<close>.
\<close>

record influx_point =
  tag_device :: "string option"
  f_rr_interval :: real
  f_heart_rate :: "real option"
  f_source :: "string option"
  f_path :: "string option"
  pt_timestamp :: real

record realtime_point =
  rt_device :: "string option"
  rt_rmssd :: "real option"
  rt_sdnn :: "real option"
  rt_pnn50 :: "real option"
  rt_hr :: "real option"
  rt_timestamp :: real

text \<open>A row of \<open>queryRawBeats\<close>.\<close>

record existing_beat =
  e_time :: real
  e_rr_interval :: "real option"
  e_rr_clean :: "real option"

text \<open>
  What lies outside the process: the clock and the answers of the time-series database.
  \<open>queryRawBeats\<close> may throw (\<open>Inl\<close>); \<open>queryLastProcessedTime\<close> catches
  its own errors and answers null; \<open>writePoints\<close> answers \<open>Some\<close> message when
  the write of that chunk throws.
\<close>

record env =
  env_now :: real
  queryLastProcessedTime :: "string \<Rightarrow> real option"
  queryRawBeats :: "string \<Rightarrow> real \<Rightarrow> real \<Rightarrow> string + existing_beat list"
  writePoints :: "influx_point list \<Rightarrow> string option"

record device_state =
  rrWindow :: "real list"
  rmssdBuffer :: "real list"
  totalBeats :: nat
  lastPosture :: string

text \<open>
  The mutable state of the process, with the write requests issued to \<open>polar_raw\<close>
  and \<open>polar_realtime\<close> in the order of the calls. The dashboard's maps
  (\<open>latestBeatData\<close>, \<open>relayState\<close>), the log and the SSE broadcast are left out.
\<close>

record hub =
  deviceState :: "string \<rightharpoonup> device_state"
  ppState :: pp_state
  raw_writes :: "influx_point list"
  realtime_writes :: "realtime_point list"

datatype error =
  InvalidRequest | RequireDeviceAndBeats | BeatMissingTimestamp nat | InfluxWriteFailed

text \<open>
  \<open>Resp400 e\<close> and \<open>Resp500 e\<close> are \<open>{ok: false, error: e}\<close> with that status;
  \<open>RespBeats n\<close> is \<open>{ok: true, received: n}\<close>; \<open>RespBatch r n d\<close> is
  \<open>{ok: true, received: r, new: n, duplicates: d}\<close>; \<open>Uncaught ex\<close> is a handler
  that threw \<open>ex\<close> outside every \<open>try\<close> and sent no answer.
\<close>

datatype response =
  Resp400 error | Resp500 error | RespBeats nat | RespBatch nat nat nat | Uncaught exception

definition GAP_THRESHOLD_MS :: real where "GAP_THRESHOLD_MS = 300"
definition REALTIME_WINDOW_SIZE :: nat where "REALTIME_WINDOW_SIZE = 60"
definition BATCH_CHUNK_SIZE :: nat where "BATCH_CHUNK_SIZE = 5000"

text \<open>JavaScript truthiness of an optional string and of an optional number.\<close>

definition truthy_str :: "string option \<Rightarrow> bool" where
  "truthy_str s = (case s of None \<Rightarrow> False | Some v \<Rightarrow> v \<noteq> [])"

definition truthy_num :: "real option \<Rightarrow> bool" where
  "truthy_num x = (case x of None \<Rightarrow> False | Some v \<Rightarrow> v \<noteq> 0)"

definition keep_str :: "string option \<Rightarrow> string option" where
  "keep_str s = (if truthy_str s then s else None)"

definition writeRawBeat ::
  "string \<Rightarrow> real \<Rightarrow> real \<Rightarrow> real option \<Rightarrow> string option \<Rightarrow> string \<Rightarrow> influx_point" where
  "writeRawBeat device timestamp rr heartRate source path =
     \<lparr>tag_device = keep_str (Some device), f_rr_interval = rr, f_heart_rate = heartRate,
      f_source = keep_str source, f_path = keep_str (Some path), pt_timestamp = timestamp\<rparr>"

definition writeRealtime ::
  "string \<Rightarrow> real \<Rightarrow> hrv \<Rightarrow> real option \<Rightarrow> realtime_point list" where
  "writeRealtime device timestamp h hr =
     (if rmssd h = None \<and> sdnn h = None \<and> pnn50 h = None \<and> hr = None then []
      else [\<lparr>rt_device = keep_str (Some device), rt_rmssd = rmssd h, rt_sdnn = sdnn h,
             rt_pnn50 = pnn50 h, rt_hr = hr, rt_timestamp = timestamp\<rparr>])"

subsection \<open>POST /beats\<close>

record beats_req =
  req_source :: "string option"
  req_device :: "string option"
  req_timestamp :: "real option"
  req_heartRate :: "real option"
  req_rrIntervals :: "real list option"
  req_posture :: "string option"
  req_rssi :: "real option"

text \<open>
  \<open>req_rrIntervals\<close> is \<open>None\<close> when the field is missing or is not an array.
  \<open>getDeviceState\<close> creates the state of an unknown device and registers it with the
  post-processor; the registration, which the source does not await, is taken to be
  complete at the call.
\<close>

definition getDeviceState :: "env \<Rightarrow> hub \<Rightarrow> string \<Rightarrow> device_state \<times> hub" where
  "getDeviceState e h device =
     (case deviceState h device of
        Some st \<Rightarrow> (st, h)
      | None \<Rightarrow>
          (let st = \<lparr>rrWindow = [], rmssdBuffer = [], totalBeats = 0,
                     lastPosture = ''unknown''\<rparr>
           in (st, h\<lparr>deviceState := (deviceState h)(device \<mapsto> st),
                     ppState := registerDevice (ppState h) device
                                  (queryLastProcessedTime e device) (env_now e)\<rparr>)))"

definition beatTimestamp :: "env \<Rightarrow> beats_req \<Rightarrow> real" where
  "beatTimestamp e req =
     (case req_timestamp req of
        None \<Rightarrow> env_now e
      | Some t \<Rightarrow> if t \<noteq> 0 then t else env_now e)"

text \<open>
  The loop over \<open>rrIntervals\<close>: the state is the cumulative offset, the device state
  and the raw-beat writes issued so far. The timestamp of a beat and the cumulative offset
  are sums of doubles, rounded as the source rounds them.
\<close>

fun beats_loop ::
  "string \<Rightarrow> real option \<Rightarrow> string option \<Rightarrow> real \<Rightarrow> real list \<Rightarrow>
   real \<times> device_state \<times> influx_point list \<Rightarrow> real \<times> device_state \<times> influx_point list" where
  "beats_loop device heartRate source t [] acc = acc"
| "beats_loop device heartRate source t (rr # rrs) (cumulativeRR, st, ws) =
     (let rrTimestamp = round64 (t + cumulativeRR);
          w = rrWindow st @ [rr]
      in beats_loop device heartRate source t rrs
           (round64 (cumulativeRR + rr),
            st\<lparr>totalBeats := totalBeats st + 1,
               rrWindow := (if length w > REALTIME_WINDOW_SIZE then tl w else w)\<rparr>,
            ws @ [writeRawBeat device rrTimestamp rr heartRate source ''realtime'']))"

text \<open>
  The values for the dashboard: the window is classified in double precision; the HRV of
  its clean series and the heart rate derived from it are computed over the reals here.
  They go to \<open>polar_realtime\<close> only; no statement below depends on them.
\<close>

definition window_hrv :: "real list \<Rightarrow> real option \<Rightarrow> hrv \<times> real option" where
  "window_hrv window heartRate =
     (if length window \<ge> 4 then
        (let cleanRRs = cleanSeries (analyzeRR64 window) in
         if length cleanRRs \<ge> 2 then
           (let meanCleanRR = sum_list cleanRRs / real (length cleanRRs)
            in (calculateHRV cleanRRs, Some (js_round (60000 / meanCleanRR))))
         else (\<lparr>rmssd = None, sdnn = None, pnn50 = None\<rparr>, heartRate))
      else (\<lparr>rmssd = None, sdnn = None, pnn50 = None\<rparr>, heartRate))"

definition post_beats :: "env \<Rightarrow> beats_req \<Rightarrow> hub \<Rightarrow> response \<times> hub" where
  "post_beats e req h =
     (case req_device req of
        None \<Rightarrow> (Resp400 InvalidRequest, h)
      | Some device \<Rightarrow>
          (case req_rrIntervals req of
             None \<Rightarrow> (Resp400 InvalidRequest, h)
           | Some rrIntervals \<Rightarrow>
               if device = [] then (Resp400 InvalidRequest, h)
               else if length rrIntervals = 0 then (RespBeats 0, h)
               else
                 (let (st0, h1) = getDeviceState e h device;
                      st1 = st0\<lparr>lastPosture :=
                                 (if truthy_str (req_posture req) then the (req_posture req)
                                  else ''unknown'')\<rparr>;
                      t = beatTimestamp e req;
                      (cumulativeRR, st2, ws) =
                        beats_loop device (req_heartRate req) (req_source req) t rrIntervals
                          (0, st1, []);
                      (hv, windowHR) = window_hrv (rrWindow st2) (req_heartRate req);
                      lastRRTimestamp = round64 (round64 (t + cumulativeRR) - last rrIntervals);
                      st3 = (case rmssd hv of
                               None \<Rightarrow> st2
                             | Some r \<Rightarrow>
                                 (let b = rmssdBuffer st2 @ [r]
                                  in st2\<lparr>rmssdBuffer := (if length b > 30 then tl b else b)\<rparr>))
                  in (RespBeats (length rrIntervals),
                      h1\<lparr>deviceState := (deviceState h1)(device \<mapsto> st3),
                         raw_writes := raw_writes h1 @ ws,
                         realtime_writes := realtime_writes h1
                           @ writeRealtime device lastRRTimestamp hv windowHR\<rparr>))))"



subsection \<open>POST /beats/batch\<close>

text \<open>
  The sums and differences of this handler (the timestamps of the points laid out from a
  beat, the bounds of the dedup query and of the gaps) are taken over the reals.
\<close>

record batch_beat =
  bb_timestamp :: "real option"
  bb_heartRate :: "real option"
  bb_rrIntervals :: "real list option"

record batch_req =
  breq_source :: "string option"
  breq_device :: "string option"
  breq_beats :: "batch_beat list option"

record point =
  p_timestamp :: real
  p_rr_interval :: real
  p_heart_rate :: "real option"
  p_source :: "string option"
  p_path :: string

record gap =
  g_start :: real
  g_end :: real

text \<open>
  \<open>bb_timestamp\<close> is \<open>None\<close> when \<open>typeof beat.timestamp\<close> is not
  \<open>'number'\<close>; the validation loop answers with the index of the first such beat.
\<close>

fun first_missing_timestamp :: "batch_beat list \<Rightarrow> nat \<Rightarrow> nat option" where
  "first_missing_timestamp [] i = None"
| "first_missing_timestamp (b # bs) i =
     (if bb_timestamp b = None then Some i else first_missing_timestamp bs (i + 1))"

fun lay_rr :: "real \<Rightarrow> real list \<Rightarrow> real option \<Rightarrow> string option \<Rightarrow> point list" where
  "lay_rr ts [] hr source = []"
| "lay_rr ts (rr # rrs) hr source =
     \<lparr>p_timestamp = ts, p_rr_interval = rr, p_heart_rate = hr, p_source = source,
      p_path = ''batch''\<rparr> # lay_rr (ts + rr) rrs hr source"

text \<open>A beat without a timestamp does not reach the flattening: validation has answered 400.\<close>

definition flatten_beats :: "string option \<Rightarrow> batch_beat list \<Rightarrow> point list" where
  "flatten_beats source beats =
     concat (map (\<lambda>beat.
        case (bb_rrIntervals beat, bb_timestamp beat) of
          (Some rrs, Some ts) \<Rightarrow>
             lay_rr ts rrs (if truthy_num (bb_heartRate beat) then bb_heartRate beat else None)
               source
        | _ \<Rightarrow> []) beats)"

definition rr_or_0 :: "real option \<Rightarrow> real" where
  "rr_or_0 x = (case x of None \<Rightarrow> 0 | Some v \<Rightarrow> v)"

definition detect_gaps :: "existing_beat list \<Rightarrow> real \<Rightarrow> real \<Rightarrow> gap list" where
  "detect_gaps existing firstTs lastTs =
     (let inner = concat (map (\<lambda>i.
            let expectedNext = e_time (existing ! i) + rr_or_0 (e_rr_interval (existing ! i));
                actualNext = e_time (existing ! (i + 1))
            in if actualNext - expectedNext > GAP_THRESHOLD_MS
               then [\<lparr>g_start = expectedNext, g_end = actualNext\<rparr>] else [])
          [0..<length existing - 1]);
          leading = (if firstTs < e_time (existing ! 0) - GAP_THRESHOLD_MS
                     then [\<lparr>g_start = firstTs, g_end = e_time (existing ! 0)\<rparr>] else []);
          lastEx = existing ! (length existing - 1);
          trailingStart = e_time lastEx + rr_or_0 (e_rr_interval lastEx);
          trailing = (if lastTs > trailingStart + GAP_THRESHOLD_MS
                      then [\<lparr>g_start = trailingStart, g_end = lastTs + 2000\<rparr>] else [])
      in leading @ inner @ trailing)"

definition in_gap :: "point \<Rightarrow> gap \<Rightarrow> bool" where
  "in_gap p g = (p_timestamp p \<ge> g_start g - GAP_THRESHOLD_MS
                 \<and> p_timestamp p \<le> g_end g + GAP_THRESHOLD_MS)"

definition select_new :: "existing_beat list \<Rightarrow> point list \<Rightarrow> point list" where
  "select_new existing incomingPoints =
     (if length existing = 0 then incomingPoints
      else (let firstTs = p_timestamp (incomingPoints ! 0);
                lastTs = p_timestamp (incomingPoints ! (length incomingPoints - 1));
                gaps = detect_gaps existing firstTs lastTs
            in filter (\<lambda>p. list_ex (in_gap p) gaps) incomingPoints))"

definition to_influx :: "string \<Rightarrow> point \<Rightarrow> influx_point" where
  "to_influx device p =
     \<lparr>tag_device = keep_str (Some device), f_rr_interval = p_rr_interval p,
      f_heart_rate = p_heart_rate p, f_source = keep_str (p_source p),
      f_path = keep_str (Some (p_path p)), pt_timestamp = p_timestamp p\<rparr>"

text \<open>
  \<open>chunkedWrite\<close>: chunks of 5000 points in order, stopping at the first write that
  throws. The answer is the error, if any, with the points handed to the store.
\<close>

function chunkedWrite ::
  "env \<Rightarrow> influx_point list \<Rightarrow> influx_point list \<Rightarrow> string option \<times> influx_point list" where
  "chunkedWrite e points issued =
     (if points = [] then (None, issued)
      else (let chunk = take BATCH_CHUNK_SIZE points in
            case writePoints e chunk of
              Some err \<Rightarrow> (Some err, issued @ chunk)
            | None \<Rightarrow> chunkedWrite e (drop BATCH_CHUNK_SIZE points) (issued @ chunk)))"
  by pat_completeness auto
termination
  by (relation "measure (\<lambda>(e, points, issued). length points)")
     (auto simp: BATCH_CHUNK_SIZE_def)

declare chunkedWrite.simps [simp del]

definition writeRawBatch :: "env \<Rightarrow> string \<Rightarrow> point list \<Rightarrow> string option \<times> influx_point list" where
  "writeRawBatch e device points = chunkedWrite e (map (to_influx device) points) []"

text \<open>The answer of the dedup query as the handler uses it: a failed query is an empty one.\<close>

definition existing_of :: "env \<Rightarrow> string \<Rightarrow> point list \<Rightarrow> existing_beat list" where
  "existing_of e device incomingPoints =
     (let firstTs = p_timestamp (incomingPoints ! 0);
          lastTs = p_timestamp (incomingPoints ! (length incomingPoints - 1))
      in case queryRawBeats e device (firstTs - 2000) (lastTs + 2000) of
           Inl err \<Rightarrow> []
         | Inr rows \<Rightarrow> rows)"

definition incoming_of :: "batch_req \<Rightarrow> point list" where
  "incoming_of req =
     (case breq_beats req of
        None \<Rightarrow> []
      | Some beats \<Rightarrow> sort_key p_timestamp (flatten_beats (breq_source req) beats))"

definition post_batch :: "env \<Rightarrow> batch_req \<Rightarrow> hub \<Rightarrow> response \<times> hub" where
  "post_batch e req h =
     (case (breq_device req, breq_beats req) of
        (Some device, Some beats) \<Rightarrow>
          if device = [] \<or> length beats = 0 then (Resp400 RequireDeviceAndBeats, h)
          else
            (case first_missing_timestamp beats 0 of
               Some i \<Rightarrow> (Resp400 (BeatMissingTimestamp i), h)
             | None \<Rightarrow>
                 (let h1 = h\<lparr>ppState := registerDevice (ppState h) device
                                           (queryLastProcessedTime e device) (env_now e)\<rparr>;
                      incomingPoints = incoming_of req
                  in if length incomingPoints = 0 then (RespBatch 0 0 0, h1)
                     else
                       (let firstTs = p_timestamp (incomingPoints ! 0);
                            existing = existing_of e device incomingPoints;
                            newPoints = select_new existing incomingPoints;
                            duplicateCount = length incomingPoints - length newPoints
                        in if length newPoints > 0 then
                             (case writeRawBatch e device newPoints of
                                (Some err, issued) \<Rightarrow>
                                  (Resp500 InfluxWriteFailed,
                                   h1\<lparr>raw_writes := raw_writes h1 @ issued\<rparr>)
                              | (None, issued) \<Rightarrow>
                                  (case triggerReprocess (ppState h1) device firstTs of
                                     (Some ex, ds) \<Rightarrow>
                                       (Uncaught ex, h1\<lparr>raw_writes := raw_writes h1 @ issued\<rparr>)
                                   | (None, ds) \<Rightarrow>
                                       (RespBatch (length incomingPoints) (length newPoints)
                                          duplicateCount,
                                        h1\<lparr>raw_writes := raw_writes h1 @ issued,
                                           ppState := ds\<rparr>)))
                           else (RespBatch (length incomingPoints) (length newPoints)
                                   duplicateCount, h1))))
      | _ \<Rightarrow> (Resp400 RequireDeviceAndBeats, h))"

section \<open>Concrete stores and requests\<close>

text \<open>
  A store that is empty and accepts every write, an empty process state, and the
  requests at which the examples below are evaluated.
\<close>

definition env0 :: env where
  "env0 = \<lparr>env_now = 5000000, queryLastProcessedTime = (\<lambda>device. None),
           queryRawBeats = (\<lambda>device startMs endMs. Inr []),
           writePoints = (\<lambda>points. None)\<rparr>"

definition hub0 :: hub where
  "hub0 = \<lparr>deviceState = Map.empty, ppState = Map.empty, raw_writes = [],
           realtime_writes = []\<rparr>"

definition req_empty_no_device :: beats_req where
  "req_empty_no_device =
     \<lparr>req_source = None, req_device = None, req_timestamp = Some 1000,
      req_heartRate = None, req_rrIntervals = Some [], req_posture = None,
      req_rssi = None\<rparr>"

definition req_empty :: beats_req where
  "req_empty =
     \<lparr>req_source = None, req_device = Some ''H10'', req_timestamp = Some 1000,
      req_heartRate = None, req_rrIntervals = Some [], req_posture = None,
      req_rssi = None\<rparr>"




definition env_read_fails :: env where
  "env_read_fails =
     \<lparr>env_now = 5000000, queryLastProcessedTime = (\<lambda>device. None),
      queryRawBeats = (\<lambda>device startMs endMs. Inl ''timeout''),
      writePoints = (\<lambda>points. None)\<rparr>"

definition env_write_fails :: env where
  "env_write_fails =
     \<lparr>env_now = 5000000, queryLastProcessedTime = (\<lambda>device. None),
      queryRawBeats = (\<lambda>device startMs endMs. Inr []),
      writePoints = (\<lambda>points. Some ''write error'')\<rparr>"

definition req_batch_one :: batch_req where
  "req_batch_one =
     \<lparr>breq_source = None, breq_device = Some ''H10'',
      breq_beats = Some [\<lparr>bb_timestamp = Some 1000, bb_heartRate = None,
                          bb_rrIntervals = Some [800]\<rparr>]\<rparr>"






text \<open>
  A series with one misplaced beat (a short interval followed by a long one), and the
  state in which the walk of \<open>analyzeRR\<close> reaches the index 5.
\<close>

definition rr_ectopic :: "real list" where
  "rr_ectopic = [800, 800, 800, 800, 500, 1100, 800, 800, 800, 800, 800]"

definition state_at_five :: walk_state where
  "state_at_five =
     \<lparr>w_i = 5, classifications = (replicate 11 ANone)[4 := Longshort], ectopicPairs = []\<rparr>"

section \<open>Properties of the rounding\<close>

lemma rhe_lower: "\<lfloor>y\<rfloor> \<le> rhe y"
  by (simp add: rhe_def Let_def)

lemma rhe_upper: "rhe y \<le> \<lfloor>y\<rfloor> + 1"
  by (simp add: rhe_def Let_def)

lemma rhe_of_int: "rhe (of_int n) = n"
  by (simp add: rhe_def)

lemma rhe_ge:
  assumes "of_int N \<le> y"
  shows "N \<le> rhe y"
proof -
  from assms have "N \<le> \<lfloor>y\<rfloor>" by (simp add: le_floor_iff)
  with rhe_lower [of y] show ?thesis by simp
qed

lemma rhe_le:
  assumes "y \<le> of_int N"
  shows "rhe y \<le> N"
proof (cases "y = of_int N")
  case True
  then show ?thesis by (simp add: rhe_of_int)
next
  case False
  with assms have "y < of_int N" by simp
  then have "\<lfloor>y\<rfloor> < N" by (simp add: floor_less_iff)
  with rhe_upper [of y] show ?thesis by simp
qed

lemma rhe_near:
  assumes "\<bar>y - of_int N\<bar> < 1 / 2"
  shows "rhe y = N"
proof (cases "of_int N \<le> y")
  case True
  with assms have "\<lfloor>y\<rfloor> = N" by (intro floor_unique) auto
  with assms True show ?thesis by (simp add: rhe_def Let_def)
next
  case False
  with assms have "\<lfloor>y\<rfloor> = N - 1" by (intro floor_unique) auto
  with assms False show ?thesis by (simp add: rhe_def Let_def)
qed

lemma expo_up_lower: "1 \<le> x \<Longrightarrow> 2 powi (expo_up n x) \<le> x"
proof (induction n arbitrary: x)
  case 0
  then show ?case by simp
next
  case (Suc n)
  show ?case
  proof (cases "2 \<le> x")
    case True
    then have "2 powi (expo_up n (x / 2)) \<le> x / 2"
      by (intro Suc.IH) simp
    with True show ?thesis by (simp add: power_int_add)
  next
    case False
    with Suc.prems show ?thesis by simp
  qed
qed

lemma expo_down_lower:
  "0 < x \<Longrightarrow> - int n < expo_down n x \<Longrightarrow> 2 powi (expo_down n x) \<le> x"
proof (induction n arbitrary: x)
  case 0
  then show ?case by simp
next
  case (Suc n)
  show ?case
  proof (cases "x < 1")
    case True
    with Suc.prems have "2 powi (expo_down n (2 * x)) \<le> 2 * x"
      by (intro Suc.IH) simp_all
    with True show ?thesis by (simp add: power_int_diff)
  next
    case False
    then show ?thesis by simp
  qed
qed

lemma expo_lower:
  assumes "0 < x" and "- 1100 < expo x"
  shows "2 powi (expo x) \<le> x"
proof (cases "1 \<le> x")
  case True
  then show ?thesis by (simp add: expo_def expo_up_lower)
next
  case False
  with assms expo_down_lower [of x 1100] show ?thesis by (simp add: expo_def)
qed

lemma expo_up_eq:
  "2 powi e \<le> x \<Longrightarrow> x < 2 powi (e + 1) \<Longrightarrow> 0 \<le> e \<Longrightarrow> e \<le> int n \<Longrightarrow> expo_up n x = e"
proof (induction n arbitrary: x e)
  case 0
  then show ?case by simp
next
  case (Suc n)
  show ?case
  proof (cases "e = 0")
    case True
    with Suc.prems show ?thesis by simp
  next
    case False
    with Suc.prems have e: "0 \<le> e - 1" "e - 1 \<le> int n" by simp_all
    have p: "(2::real) powi e = 2 * 2 powi (e - 1)" "(2::real) powi (e + 1) = 2 * 2 powi (e - 1 + 1)"
      by (simp_all add: power_int_diff power_int_add)
    have "(2::real) powi 1 \<le> 2 powi e"
      using False Suc.prems(3) by (intro power_int_increasing) simp_all
    with Suc.prems(1) have x: "2 \<le> x" by simp
    have "expo_up n (x / 2) = e - 1"
      using Suc.prems(1,2) p e by (intro Suc.IH) simp_all
    with x show ?thesis by simp
  qed
qed

lemma expo_down_eq:
  "2 powi e \<le> x \<Longrightarrow> x < 2 powi (e + 1) \<Longrightarrow> e \<le> 0 \<Longrightarrow> - int n \<le> e \<Longrightarrow> x < 1
     \<Longrightarrow> expo_down n x = e"
proof (induction n arbitrary: x e)
  case 0
  then have "e = 0" by simp
  with "0.prems" show ?case by simp
next
  case (Suc n)
  have e: "e < 0"
  proof (rule ccontr)
    assume "\<not> e < 0"
    with Suc.prems have "e = 0" by simp
    with Suc.prems show False by simp
  qed
  have p: "2 powi (e + 1) \<le> 2 * x" "2 * x < 2 powi (e + 1 + 1)"
    using Suc.prems(1,2) by (simp_all add: power_int_add)
  show ?case
  proof (cases "e = - 1")
    case True
    with p have "\<not> 2 * x < 1" by simp
    then have "expo_down n (2 * x) = 0" by (cases n) simp_all
    with Suc.prems True show ?thesis by simp
  next
    case False
    with e have "e + 1 \<le> 0" "2 * x < 1"
      using p(2) power_int_increasing [of "e + 1 + 1" 0 "2::real"] by simp_all
    moreover have "- int n \<le> e + 1" using Suc.prems(4) by simp
    ultimately have "expo_down n (2 * x) = e + 1"
      using p by (intro Suc.IH) simp_all
    with Suc.prems show ?thesis by simp
  qed
qed

lemma expo_eq:
  assumes "2 powi e \<le> x" and "x < 2 powi (e + 1)" and "- 1100 \<le> e" and "e \<le> 1100"
  shows "expo x = e"
proof (cases "1 \<le> x")
  case True
  have "0 \<le> e"
  proof (rule ccontr)
    assume "\<not> 0 \<le> e"
    then have "(2::real) powi (e + 1) \<le> 2 powi 0"
      by (intro power_int_increasing) simp_all
    with assms(2) True show False by simp
  qed
  with assms True show ?thesis
    by (simp add: expo_def expo_up_eq)
next
  case False
  have "e < 0"
  proof (rule ccontr)
    assume "\<not> e < 0"
    then have "(2::real) powi 0 \<le> 2 powi e"
      by (intro power_int_increasing) simp_all
    with assms(1) False show False by simp
  qed
  with assms False show ?thesis
    by (simp add: expo_def expo_down_eq)
qed

lemma round64_minus: "round64 (- x) = - round64 x"
  by (simp add: round64_def Let_def sgn_minus)

lemma round64_pos_unfold:
  "0 < x \<Longrightarrow> round64 x = of_int (rhe (x / 2 powi (max (expo x - 52) (- 1074))))
                             * 2 powi (max (expo x - 52) (- 1074))"
  by (simp add: round64_def Let_def)

lemma round64_nonneg: "0 \<le> x \<Longrightarrow> 0 \<le> round64 x"
proof (cases "x = 0")
  case True
  then show ?thesis by (simp add: round64_def)
next
  case False
  assume "0 \<le> x"
  with False have x: "0 < x" by simp
  have "0 \<le> rhe (x / 2 powi (max (expo x - 52) (- 1074)))"
    using x by (intro rhe_ge) simp
  then show ?thesis
    by (simp add: round64_pos_unfold [OF x])
qed

lemma round64_nonpos: "x \<le> 0 \<Longrightarrow> round64 x \<le> 0"
  using round64_nonneg [of "- x"] by (simp add: round64_minus)

text \<open>
  Rounding is monotone against every value of the format: a positive \<open>M * 2 powi k\<close>
  with \<open>M \<le> 2 ^ 53\<close> and \<open>k \<ge> - 1074\<close> that bounds \<open>x\<close> bounds \<open>round64 x\<close>.
\<close>

lemma round64_ge:
  assumes d: "of_int M * 2 powi k \<le> x" and M: "0 < M" "M \<le> 2 ^ 53" and k: "- 1074 \<le> k"
  shows "of_int M * 2 powi k \<le> round64 x"
proof -
  have "0 < of_int M * (2::real) powi k" using M by simp
  with d have x: "0 < x" by linarith
  define q where "q = max (expo x - 52) (- 1074)"
  have r: "round64 x = of_int (rhe (x / 2 powi q)) * 2 powi q"
    unfolding q_def by (rule round64_pos_unfold [OF x])
  show ?thesis
  proof (cases "q \<le> k")
    case True
    define N where "N = M * 2 ^ nat (k - q)"
    have N: "of_int N = of_int M * (2::real) powi (k - q)"
      using True by (simp add: N_def power_int_def)
    have "of_int N \<le> x / 2 powi q"
      using d by (simp add: N power_int_diff field_simps)
    then have "N \<le> rhe (x / 2 powi q)" by (rule rhe_ge)
    then have "of_int N * (2::real) powi q \<le> of_int (rhe (x / 2 powi q)) * 2 powi q"
      by (intro mult_right_mono) simp_all
    moreover have "of_int N * (2::real) powi q = of_int M * 2 powi k"
      by (simp add: N power_int_diff)
    ultimately show ?thesis by (simp add: r)
  next
    case False
    with k have q: "q = expo x - 52" "k + 53 \<le> expo x"
      by (simp_all add: q_def max_def split: if_splits)
    have "2 powi (expo x) \<le> x"
      using x q(2) k by (intro expo_lower) simp_all
    then have "of_int (2 ^ 52) \<le> x / 2 powi q"
      by (simp add: q(1) power_int_diff field_simps)
    then have "2 ^ 52 \<le> rhe (x / 2 powi q)" by (rule rhe_ge)
    then have g: "of_int (2 ^ 52) * (2::real) powi q \<le> of_int (rhe (x / 2 powi q)) * 2 powi q"
      by (intro mult_right_mono) simp_all
    have "of_int M * (2::real) powi k \<le> 2 ^ 53 * 2 powi k"
      using M(2) by (intro mult_right_mono) (simp_all add: of_int_le_numeral_power_cancel_iff)
    also have "\<dots> = 2 powi (k + 53)"
      by (simp add: power_int_add)
    also have "\<dots> \<le> 2 powi (expo x)"
      using q(2) by (intro power_int_increasing) simp_all
    also have "\<dots> = of_int (2 ^ 52) * (2::real) powi q"
      by (simp add: q(1) power_int_diff)
    also note g
    finally show ?thesis by (simp only: r)
  qed
qed

lemma round64_le:
  assumes x: "0 < x" and d: "x \<le> of_int M * 2 powi k" and M: "M \<le> 2 ^ 53"
    and k: "- 1074 \<le> k"
  shows "round64 x \<le> of_int M * 2 powi k"
proof -
  define q where "q = max (expo x - 52) (- 1074)"
  have r: "round64 x = of_int (rhe (x / 2 powi q)) * 2 powi q"
    unfolding q_def by (rule round64_pos_unfold [OF x])
  show ?thesis
  proof (cases "q \<le> k")
    case True
    define N where "N = M * 2 ^ nat (k - q)"
    have N: "of_int N = of_int M * (2::real) powi (k - q)"
      using True by (simp add: N_def power_int_def)
    have "x / 2 powi q \<le> of_int N"
      using d by (simp add: N power_int_diff field_simps)
    then have "rhe (x / 2 powi q) \<le> N" by (rule rhe_le)
    then have "of_int (rhe (x / 2 powi q)) * (2::real) powi q \<le> of_int N * 2 powi q"
      by (intro mult_right_mono) simp_all
    moreover have "of_int N * (2::real) powi q = of_int M * 2 powi k"
      by (simp add: N power_int_diff)
    ultimately show ?thesis by (simp add: r)
  next
    case False
    with k have q: "q = expo x - 52" "k + 53 \<le> expo x"
      by (simp_all add: q_def max_def split: if_splits)
    have l: "2 powi (expo x) \<le> x"
      using x q(2) k by (intro expo_lower) simp_all
    have "of_int M * (2::real) powi k \<le> 2 ^ 53 * 2 powi k"
      using M by (intro mult_right_mono) (simp_all add: of_int_le_numeral_power_cancel_iff)
    also have "\<dots> = 2 powi (k + 53)"
      by (simp add: power_int_add)
    also have "\<dots> \<le> 2 powi (expo x)"
      using q(2) by (intro power_int_increasing) simp_all
    finally have u: "of_int M * (2::real) powi k \<le> 2 powi (expo x)" .
    have e: "x = 2 powi (expo x)" "of_int M * (2::real) powi k = x"
      using l d u by linarith+
    have "x / 2 powi q = of_int (2 ^ 52)"
      by (subst e(1)) (simp add: q(1) power_int_diff)
    then have "rhe (x / 2 powi q) = 2 ^ 52"
      by (simp only: rhe_of_int)
    then have "round64 x = 2 ^ 52 * 2 powi q" by (simp add: r)
    also have "\<dots> = 2 powi (expo x)" by (simp add: q(1) power_int_diff)
    also have "\<dots> = x" by (rule e(1) [symmetric])
    finally show ?thesis using d by simp
  qed
qed

text \<open>A value of the format is rounded to itself.\<close>

lemma round64_rep:
  assumes "\<bar>M\<bar> \<le> 2 ^ 53" and "- 1074 \<le> k"
  shows "round64 (of_int M * 2 powi k) = of_int M * 2 powi k"
proof -
  have pos: "round64 (of_int N * 2 powi k) = of_int N * 2 powi k"
    if "0 < N" "N \<le> 2 ^ 53" for N
  proof (rule antisym)
    have "0 < of_int N * (2::real) powi k" using that by simp
    then show "round64 (of_int N * 2 powi k) \<le> of_int N * 2 powi k"
      using that assms(2) by (intro round64_le) simp_all
    show "of_int N * 2 powi k \<le> round64 (of_int N * 2 powi k)"
      using that assms(2) by (intro round64_ge) simp_all
  qed
  consider "0 < M" | "M = 0" | "M < 0" by linarith
  then show ?thesis
  proof cases
    case 1
    with assms show ?thesis by (intro pos) simp_all
  next
    case 2
    then show ?thesis by (simp add: round64_def)
  next
    case 3
    with assms have "round64 (of_int (- M) * 2 powi k) = of_int (- M) * 2 powi k"
      by (intro pos) simp_all
    then show ?thesis
      using round64_minus [of "of_int M * 2 powi k"] by simp
  qed
qed

lemma round64_int:
  assumes "x \<in> \<int>" and "\<bar>x\<bar> \<le> 2 ^ 53"
  shows "round64 x = x"
proof -
  from assms(1) obtain M where x: "x = of_int M" by (auto elim: Ints_cases)
  with assms(2) have "\<bar>M\<bar> \<le> 2 ^ 53"
    by (simp flip: of_int_abs add: of_int_le_numeral_power_cancel_iff)
  then have "round64 (of_int M * 2 powi 0) = of_int M * 2 powi 0"
    by (intro round64_rep) simp_all
  with x show ?thesis by simp
qed

lemma round64_quarters:
  assumes "4 * x \<in> \<int>" and "\<bar>x\<bar> \<le> 2 ^ 51"
  shows "round64 x = x"
proof -
  from assms(1) obtain M where x: "4 * x = of_int M" by (auto elim: Ints_cases)
  then have x': "x = of_int M * 2 powi (- 2)" by (simp add: power_int_minus field_simps)
  have "\<bar>of_int M :: real\<bar> \<le> 2 ^ 53"
    using assms(2) x [symmetric] by (simp add: abs_mult)
  then have "\<bar>M\<bar> \<le> 2 ^ 53"
    by (simp flip: of_int_abs add: of_int_le_numeral_power_cancel_iff)
  then have "round64 (of_int M * 2 powi (- 2)) = of_int M * 2 powi (- 2)"
    by (intro round64_rep) simp_all
  then show ?thesis by (simp only: x' [symmetric])
qed

lemma round64_pos:
  assumes "2 powi k \<le> x" and "- 1074 \<le> k"
  shows "2 powi k \<le> round64 x"
  using round64_ge [of 1 k x] assms by simp

lemma round64_numeral:
  "numeral n \<le> (2::real) ^ 53 \<Longrightarrow> round64 (numeral n) = numeral n"
  by (rule round64_int) simp_all

lemma round64_neg_numeral:
  "numeral n \<le> (2::real) ^ 53 \<Longrightarrow> round64 (- numeral n) = - numeral n"
  by (simp add: round64_minus round64_numeral)

lemma round64_0: "round64 0 = 0"
  by (simp add: round64_def)

lemma round64_1: "round64 1 = 1"
  by (rule round64_int) simp_all

section \<open>The classifier on short and on literal inputs\<close>

text \<open>
  Claim C1. On fewer than 4 intervals \<open>analyzeRR\<close> answers one result per input,
  each with \<open>rr_clean\<close> the input value and the label \<open>none\<close>, and the clean series
  is the input.
\<close>

theorem analyzeRR_short_identity:
  assumes "length rr < 4"
  shows "length (results (analyzeRR rr)) = length rr
       \<and> (\<forall>i < length rr.
             rr_clean (results (analyzeRR rr) ! i) = Some (rr ! i)
           \<and> artifact_type (results (analyzeRR rr) ! i) = ANone)
       \<and> cleanSeries (analyzeRR rr) = rr"
  using assms by (simp add: analyzeRR_def)

text \<open>Claim C1 at the three intervals 800, 810, 790.\<close>

theorem analyzeRR_short_identity_witness:
  "length [800, 810, 790 :: real] < 4
   \<and> rr_clean (results (analyzeRR [800, 810, 790]) ! 1) = Some 810
   \<and> artifact_type (results (analyzeRR [800, 810, 790]) ! 1) = ANone
   \<and> cleanSeries (analyzeRR [800, 810, 790]) = [800, 810, 790]"
  using analyzeRR_short_identity [of "[800, 810, 790]"] by simp

text \<open>
  Claim C2. On \<open>[605, 612, 1210, 598, 610]\<close> the third beat is classified
  \<open>missed\<close> with \<open>rr_clean = 605\<close>, and the clean series is
  \<open>[605, 612, 605, 605, 598, 610]\<close>.
\<close>

theorem analyzeRR_missed_beat:
  "artifact_type (results (analyzeRR [605, 612, 1210, 598, 610]) ! 2) = Missed
   \<and> rr_clean (results (analyzeRR [605, 612, 1210, 598, 610]) ! 2) = Some 605
   \<and> cleanSeries (analyzeRR [605, 612, 1210, 598, 610]) = [605, 612, 605, 605, 598, 610]"
  by code_simp

section \<open>Labels of the classifier and the length of the clean series\<close>

subsection \<open>The walk keeps its invariant\<close>

lemma walk_invariant:
  assumes "P s" and "\<forall>s. P s \<longrightarrow> w_i s < c_n c - 2 \<longrightarrow> P (walk_step c s)"
  shows "P (walk c s)"
  using assms
proof (induction c s rule: walk.induct)
  case (1 c s)
  show ?case
  proof (cases "w_i s < c_n c - 2")
    case True
    with "1.prems" have "P (walk_step c s)" by blast
    with "1.IH" [OF True] "1.prems"(2) have "P (walk c (walk_step c s))" by blast
    with True show ?thesis by (simp add: walk.simps [of c s])
  next
    case False
    with "1.prems"(1) show ?thesis by (simp add: walk.simps [of c s])
  qed
qed

lemma no_synthetic_update:
  "MissedInserted \<notin> set cls \<Longrightarrow> t \<noteq> MissedInserted \<Longrightarrow> MissedInserted \<notin> set (cls[j := t])"
  using set_update_subset_insert [of cls j t] by auto

lemma try_candidates_inv:
  "try_candidates c cls js = Some (cls', i') \<Longrightarrow>
     length cls' = length cls \<and> (MissedInserted \<notin> set cls \<longrightarrow> MissedInserted \<notin> set cls')"
proof (induction js)
  case Nil
  then show ?case by simp
next
  case (Cons j js)
  then show ?case
    by (auto simp: no_synthetic_update split: if_splits)
qed

lemma walk_step_inv:
  assumes "walk_inv n s" and "c_n c = n" and "w_i s < n - 2"
  shows "walk_inv n (walk_step c s)"
proof -
  have len: "length (classifications s) = n"
    and syn: "MissedInserted \<notin> set (classifications s)"
    and prs: "\<forall>p \<in> set (ectopicPairs s). fst p < n \<and> snd p < n"
    using assms(1) by (simp_all add: walk_inv_def)
  have i: "w_i s < n" "w_i s - 1 < n" using assms(3) by simp_all
  have upd: "walk_inv n (s\<lparr>w_i := k, classifications := (classifications s)[j := Longshort]\<rparr>)"
    for k j
    using len syn prs by (simp add: walk_inv_def no_synthetic_update)
  have adv: "walk_inv n (s\<lparr>w_i := k\<rparr>)" for k
    using assms(1) by (simp add: walk_inv_def)
  have pair: "walk_inv n (s\<lparr>w_i := k, ectopicPairs := ectopicPairs s @ [(a, b)]\<rparr>)"
    if "a < n" and "b < n" for k a b
    using len syn prs that by (simp add: walk_inv_def)
  have cand: "walk_inv n (s\<lparr>w_i := i', classifications := cls\<rparr>)"
    if "try_candidates c (classifications s) js = Some (cls, i')" for cls i' js
    using try_candidates_inv [OF that] len syn prs by (simp add: walk_inv_def)
  show ?thesis
    unfolding walk_step_def Let_def
    using i by (auto intro!: upd adv pair cand split: option.splits)
qed

lemma walk_inv_init: "walk_inv n (walk_init n)"
  by (simp add: walk_inv_def walk_init_def)

lemma walk_inv_final: "walk_inv (length rr) (walk (make_ctx rr) (walk_init (length rr)))"
proof (rule walk_invariant)
  show "walk_inv (length rr) (walk_init (length rr))" by (rule walk_inv_init)
  have "c_n (make_ctx rr) = length rr" by (simp add: make_ctx_def Let_def)
  then show "\<forall>s. walk_inv (length rr) s \<longrightarrow> w_i s < c_n (make_ctx rr) - 2
               \<longrightarrow> walk_inv (length rr) (walk_step (make_ctx rr) s)"
    by (auto intro: walk_step_inv)
qed

subsection \<open>Windows\<close>

lemma rollingCentered_nth:
  assumes "i < length arr"
  shows "rollingCentered arr w fn ! i
           = fn (slice arr (i - w div 2) (min (length arr) (i + w div 2 + 1)))"
  using assms by (simp add: rollingCentered_def Let_def)

lemma slice_window:
  assumes "i < length arr"
  shows "slice arr (i - h) (min (length arr) (i + h + 1)) \<noteq> []"
    and "set (slice arr (i - h) (min (length arr) (i + h + 1))) \<subseteq> set arr"
proof -
  show "slice arr (i - h) (min (length arr) (i + h + 1)) \<noteq> []"
    using assms by (auto simp: slice_def)
  show "set (slice arr (i - h) (min (length arr) (i + h + 1))) \<subseteq> set arr"
    unfolding slice_def
    by (meson set_take_subset set_drop_subset subset_trans)
qed

subsection \<open>The corrections keep the results well labelled\<close>

lemma correct1_labelled:
  assumes "length cls = n" and "MissedInserted \<notin> set cls" and "idx < n"
  shows "labelled (correct1 n rr medrr cls idx)"
proof -
  have "cls ! idx \<noteq> MissedInserted"
    using assms nth_mem [of idx cls] by metis
  then show ?thesis
    by (cases "cls ! idx") (simp_all add: labelled_def correct1_def)
qed

lemma apply_ectopic_length: "length (apply_ectopic rr res ps) = length res"
  by (induction rr res ps rule: apply_ectopic.induct) (simp_all add: Let_def)

lemma apply_ectopic_labelled:
  "\<forall>r \<in> set res. labelled r \<Longrightarrow> \<forall>r \<in> set (apply_ectopic rr res ps). labelled r"
proof (induction rr res ps rule: apply_ectopic.induct)
  case (1 rr res)
  then show ?case by simp
next
  case (2 rr res a b ps)
  define e where "e = \<lparr>rr_clean = Some ((rr ! a + rr ! b) / 2), artifact_type = Ectopic\<rparr>"
  have "labelled e" by (simp add: labelled_def e_def)
  moreover have "set (res[a := e, b := e]) \<subseteq> insert e (set res)"
    using set_update_subset_insert [of "res[a := e]" b e]
          set_update_subset_insert [of res a e] by auto
  ultimately have "\<forall>r \<in> set (res[a := e, b := e]). labelled r"
    using "2.prems" by auto
  with "2.IH" [of "(rr ! a + rr ! b) / 2"] show ?case
    by (simp add: Let_def e_def)
qed

lemma results_long:
  assumes "\<not> length rr < 4"
  shows "results (analyzeRR rr)
           = apply_ectopic rr
               (map (correct1 (length rr) rr (c_medrr (make_ctx rr))
                       (classifications (walk (make_ctx rr) (walk_init (length rr)))))
                  [0..<length rr])
               (ectopicPairs (walk (make_ctx rr) (walk_init (length rr))))"
    and "cleanSeries (analyzeRR rr) = build_clean (results (analyzeRR rr))"
  using assms by (simp_all add: analyzeRR_def Let_def)

lemma results_length: "length (results (analyzeRR rr)) = length rr"
  by (cases "length rr < 4") (simp_all add: results_long apply_ectopic_length, simp add: analyzeRR_def)

lemma results_labelled: "\<forall>r \<in> set (results (analyzeRR rr)). labelled r"
proof (cases "length rr < 4")
  case True
  then show ?thesis by (auto simp: analyzeRR_def labelled_def)
next
  case False
  let ?w = "walk (make_ctx rr) (walk_init (length rr))"
  have inv: "walk_inv (length rr) ?w" by (rule walk_inv_final)
  have "\<forall>r \<in> set (map (correct1 (length rr) rr (c_medrr (make_ctx rr)) (classifications ?w))
                      [0..<length rr]). labelled r"
    using inv by (auto simp: walk_inv_def intro!: correct1_labelled)
  then show ?thesis
    unfolding results_long(1) [OF False] by (rule apply_ectopic_labelled)
qed

lemma build_clean_length:
  "\<forall>r \<in> set rs. labelled r \<Longrightarrow>
     length (build_clean rs)
       = length (filter (\<lambda>r. artifact_type r \<in> {ANone, Ectopic, Extra, Longshort}) rs)
         + 2 * length (filter (\<lambda>r. artifact_type r = Missed) rs)"
proof (induction rs)
  case Nil
  then show ?case by simp
next
  case (Cons r rs)
  then have "labelled r" by simp
  then show ?case
    using Cons by (cases "artifact_type r"; cases "rr_clean r") (auto simp: labelled_def)
qed

subsection \<open>The length of the clean series\<close>

text \<open>
  Claim C4. For positive intervals the clean series has one entry for every result
  labelled \<open>none\<close>, \<open>ectopic\<close>, \<open>extra\<close> or \<open>longshort\<close>, two for every result
  labelled \<open>missed\<close>, and none for a result labelled \<open>extra_absorbed\<close>.
\<close>

theorem cleanSeries_length:
  assumes "\<forall>x \<in> set rr. 0 < x"
  shows "length (cleanSeries (analyzeRR rr))
           = length (filter (\<lambda>r. artifact_type r \<in> {ANone, Ectopic, Extra, Longshort})
                       (results (analyzeRR rr)))
             + 2 * length (filter (\<lambda>r. artifact_type r = Missed) (results (analyzeRR rr)))"
proof (cases "length rr < 4")
  case True
  then show ?thesis by (simp add: analyzeRR_def)
next
  case False
  show ?thesis
    unfolding results_long(2) [OF False]
    using results_labelled by (rule build_clean_length)
qed

text \<open>
  Claim C4 on \<open>[605, 612, 1210, 598, 610]\<close>: four beats labelled \<open>none\<close> and one
  labelled \<open>missed\<close> give a clean series of six entries.
\<close>

theorem cleanSeries_length_witness:
  "length (cleanSeries (analyzeRR [605, 612, 1210, 598, 610])) = 6
   \<and> map artifact_type (results (analyzeRR [605, 612, 1210, 598, 610]))
       = [ANone, ANone, Missed, ANone, ANone]"
proof -
  have a: "\<forall>x \<in> set [605, 612, 1210, 598, 610 :: real]. 0 < x" by simp
  have b: "results (analyzeRR [605, 612, 1210, 598, 610])
             = [\<lparr>rr_clean = Some 605, artifact_type = ANone\<rparr>,
                \<lparr>rr_clean = Some 612, artifact_type = ANone\<rparr>,
                \<lparr>rr_clean = Some 605, artifact_type = Missed\<rparr>,
                \<lparr>rr_clean = Some 598, artifact_type = ANone\<rparr>,
                \<lparr>rr_clean = Some 610, artifact_type = ANone\<rparr>]"
    by code_simp
  show ?thesis
    using cleanSeries_length [OF a] by (simp add: b)
qed

section \<open>The ectopic branch of the walk\<close>

lemma s12_first: "0 < n \<Longrightarrow> s12_of n drrs ! 0 = 0"
  by (simp add: s12_of_def upt_conv_Cons)

lemma not_ectopic_first:
  assumes "rr \<noteq> []"
  shows "\<not> isEctopic (make_ctx rr) 0"
proof -
  from assms have "c_s12 (make_ctx rr) ! 0 = 0"
    by (simp add: make_ctx_def Let_def s12_first)
  then show ?thesis
    by (simp add: isEctopic_def C1_def C2_def)
qed

text \<open>
  Claim C5. In the walk of \<open>analyzeRR\<close> over the intervals \<open>rr\<close>, an iteration at
  the index \<open>i\<close> in which the ectopic test holds records the pair \<open>(i - 1, i)\<close>,
  changes no label and moves to \<open>i + 2\<close> when \<open>i > 0\<close>, and labels the beat
  \<open>longshort\<close> and moves to \<open>i + 1\<close> when \<open>i = 0\<close>. The second case never
  occurs, which is the third conjunct: \<open>analyzeRR\<close> fills \<open>s12[0]\<close> with 0, and the
  test compares it with a bound that has the sign of \<open>-drrs[0]\<close>. (The branch of the
  source for \<open>i = 0\<close>, which no run of \<open>analyzeRR\<close> enters, is followed by the same
  \<open>i += 2\<close> as the branch for \<open>i > 0\<close>.) The theorem is stated for the walk over
  the reals; \<open>walk_step64_ectopic\<close> below is the same statement for the walk in double
  precision.
\<close>

theorem walk_step_ectopic:
  assumes "4 \<le> length rr" and "isEctopic (make_ctx rr) (w_i s)"
  shows "(0 < w_i s \<longrightarrow>
            walk_step (make_ctx rr) s
              = s\<lparr>w_i := w_i s + 2, ectopicPairs := ectopicPairs s @ [(w_i s - 1, w_i s)]\<rparr>)
       \<and> (w_i s = 0 \<longrightarrow>
            walk_step (make_ctx rr) s
              = s\<lparr>w_i := w_i s + 1,
                  classifications := (classifications s)[w_i s := Longshort]\<rparr>)
       \<and> 0 < w_i s"
proof -
  from assms(1) have "rr \<noteq> []" by auto
  then have "\<not> isEctopic (make_ctx rr) 0" by (rule not_ectopic_first)
  with assms(2) have pos: "0 < w_i s" by (cases "w_i s = 0") simp_all
  from assms(2) have "\<not> \<bar>c_drrs (make_ctx rr) ! w_i s\<bar> \<le> 1"
    by (auto simp: isEctopic_def)
  with assms(2) pos have "walk_step (make_ctx rr) s
        = s\<lparr>w_i := w_i s + 2, ectopicPairs := ectopicPairs s @ [(w_i s - 1, w_i s)]\<rparr>"
    by (simp add: walk_step_def Let_def)
  with pos show ?thesis by simp
qed

text \<open>
  Claim C5 on a series with one misplaced beat: at \<open>i = 5\<close> the test holds, the pair
  \<open>(4, 5)\<close> is recorded and the walk moves to 7.
\<close>

theorem walk_step_ectopic_witness:
  "4 \<le> length rr_ectopic \<and> isEctopic (make_ctx rr_ectopic) (w_i state_at_five)
   \<and> w_i state_at_five = 5
   \<and> walk_step (make_ctx rr_ectopic) state_at_five
       = \<lparr>w_i = 7, classifications = (replicate 11 ANone)[4 := Longshort],
          ectopicPairs = [(4, 5)]\<rparr>"
proof -
  have a: "4 \<le> length rr_ectopic"
    by (simp add: rr_ectopic_def)
  have b: "isEctopic (make_ctx rr_ectopic) (w_i state_at_five)"
    by code_simp
  have c: "w_i state_at_five = 5"
    by (simp add: state_at_five_def)
  have d: "walk_step (make_ctx rr_ectopic) state_at_five
       = \<lparr>w_i = 7, classifications = (replicate 11 ANone)[4 := Longshort],
          ectopicPairs = [(4, 5)]\<rparr>"
    using walk_step_ectopic [OF a b] by (simp add: state_at_five_def)
  show ?thesis using a b c d by blast
qed

section \<open>The rounded classifier without rounding\<close>

text \<open>
  With the identity in the place of the rounding, the rounded classifier is the
  classifier over the reals.
\<close>

lemma foldl_add_sum_list: "foldl (\<lambda>s d. s + d) a xs = a + sum_list (xs :: real list)"
  by (induction xs arbitrary: a) simp_all

lemma fl_id_functions:
  "median_fl (\<lambda>x. x) = median"
  "quantile_fl (\<lambda>x. x) = quantile"
  "quartileDeviation_fl (\<lambda>x. x) = quartileDeviation"
  "threshold_fl (\<lambda>x. x) = threshold"
  "dRR_of_fl (\<lambda>x. x) = dRR_of"
  "mRR_of_fl (\<lambda>x. x) = mRR_of"
  "normalize_fl (\<lambda>x. x) = normalize"
proof -
  show "median_fl (\<lambda>x. x) = median"
    by (simp add: fun_eq_iff median_fl_def median_def)
  show q: "quantile_fl (\<lambda>x. x) = quantile"
    by (simp add: fun_eq_iff quantile_fl_def quantile_def)
  show d: "quartileDeviation_fl (\<lambda>x. x) = quartileDeviation"
    by (simp add: fun_eq_iff quartileDeviation_fl_def quartileDeviation_def q)
  show "threshold_fl (\<lambda>x. x) = threshold"
    by (simp add: fun_eq_iff threshold_fl_def threshold_def d)
  show "dRR_of_fl (\<lambda>x. x) = dRR_of"
    by (simp add: fun_eq_iff dRR_of_fl_def dRR_of_def foldl_add_sum_list)
  show "mRR_of_fl (\<lambda>x. x) = mRR_of"
    by (simp add: fun_eq_iff mRR_of_fl_def mRR_of_def)
  show "normalize_fl (\<lambda>x. x) = normalize"
    by (simp add: fun_eq_iff normalize_fl_def normalize_def)
qed

lemma fl_id_tests:
  "isEctopic_fl (\<lambda>x. x) = isEctopic"
  "extra_test_fl (\<lambda>x. x) = extra_test"
  "missed_test_fl (\<lambda>x. x) = missed_test"
  by (simp_all add: fun_eq_iff isEctopic_fl_def isEctopic_def extra_test_fl_def extra_test_def
      missed_test_fl_def missed_test_def)

lemma try_candidates_fl_id: "try_candidates_fl (\<lambda>x. x) c cls js = try_candidates c cls js"
  by (induction js) (simp_all add: fl_id_tests)

lemma walk_step_fl_id: "walk_step_fl (\<lambda>x. x) c s = walk_step c s"
  by (simp add: walk_step_fl_def walk_step_def Let_def fl_id_tests try_candidates_fl_id)

lemma walk_fl_id: "walk_fl (\<lambda>x. x) c s = walk c s"
proof (induction c s rule: walk.induct)
  case (1 c s)
  show ?case
  proof (cases "w_i s < c_n c - 2")
    case True
    with "1.IH" show ?thesis
      by (simp add: walk_fl.simps [of _ c s] walk.simps [of c s] walk_step_fl_id)
  next
    case False
    then show ?thesis
      by (simp add: walk_fl.simps [of _ c s] walk.simps [of c s])
  qed
qed

lemma correct1_fl_id: "correct1_fl (\<lambda>x. x) = correct1"
  by (simp add: fun_eq_iff correct1_fl_def correct1_def)

lemma apply_ectopic_fl_id: "apply_ectopic_fl (\<lambda>x. x) rr res ps = apply_ectopic rr res ps"
  by (induction rr res ps rule: apply_ectopic.induct) (simp_all add: Let_def)

lemma make_ctx_fl_id: "make_ctx_fl (\<lambda>x. x) rr = make_ctx rr"
  by (simp add: make_ctx_fl_def make_ctx_def fl_id_functions)

lemma analyzeRR_fl_id: "analyzeRR_fl (\<lambda>x. x) rr = analyzeRR rr"
  by (simp add: analyzeRR_fl_def analyzeRR_def Let_def make_ctx_fl_id walk_fl_id
      correct1_fl_id apply_ectopic_fl_id)

section \<open>Labels and values of the classifier in double precision\<close>

subsection \<open>The walk keeps its invariant, whatever the rounding\<close>

lemma walk_fl_invariant:
  assumes "P s" and "\<forall>s. P s \<longrightarrow> w_i s < c_n c - 2 \<longrightarrow> P (walk_step_fl fl c s)"
  shows "P (walk_fl fl c s)"
  using assms
proof (induction fl c s rule: walk_fl.induct)
  case (1 fl c s)
  show ?case
  proof (cases "w_i s < c_n c - 2")
    case True
    with "1.prems" have "P (walk_step_fl fl c s)" by blast
    with "1.IH" [OF True] "1.prems"(2) have "P (walk_fl fl c (walk_step_fl fl c s))" by blast
    with True show ?thesis by (simp add: walk_fl.simps [of fl c s])
  next
    case False
    with "1.prems"(1) show ?thesis by (simp add: walk_fl.simps [of fl c s])
  qed
qed

lemma try_candidates_fl_inv:
  "try_candidates_fl fl c cls js = Some (cls', i') \<Longrightarrow>
     length cls' = length cls \<and> (MissedInserted \<notin> set cls \<longrightarrow> MissedInserted \<notin> set cls')"
proof (induction js)
  case Nil
  then show ?case by simp
next
  case (Cons j js)
  then show ?case
    by (auto simp: no_synthetic_update split: if_splits)
qed

lemma walk_step_fl_inv:
  assumes "walk_inv n s" and "c_n c = n" and "w_i s < n - 2"
  shows "walk_inv n (walk_step_fl fl c s)"
proof -
  have len: "length (classifications s) = n"
    and syn: "MissedInserted \<notin> set (classifications s)"
    and prs: "\<forall>p \<in> set (ectopicPairs s). fst p < n \<and> snd p < n"
    using assms(1) by (simp_all add: walk_inv_def)
  have i: "w_i s < n" "w_i s - 1 < n" using assms(3) by simp_all
  have upd: "walk_inv n (s\<lparr>w_i := k, classifications := (classifications s)[j := Longshort]\<rparr>)"
    for k j
    using len syn prs by (simp add: walk_inv_def no_synthetic_update)
  have adv: "walk_inv n (s\<lparr>w_i := k\<rparr>)" for k
    using assms(1) by (simp add: walk_inv_def)
  have pair: "walk_inv n (s\<lparr>w_i := k, ectopicPairs := ectopicPairs s @ [(a, b)]\<rparr>)"
    if "a < n" and "b < n" for k a b
    using len syn prs that by (simp add: walk_inv_def)
  have cand: "walk_inv n (s\<lparr>w_i := i', classifications := cls\<rparr>)"
    if "try_candidates_fl fl c (classifications s) js = Some (cls, i')" for cls i' js
    using try_candidates_fl_inv [OF that] len syn prs by (simp add: walk_inv_def)
  show ?thesis
    unfolding walk_step_fl_def Let_def
    using i by (auto intro!: upd adv pair cand split: option.splits)
qed

lemma make_ctx_fl_sel:
  "c_n (make_ctx_fl fl rr) = length rr"
  "c_rr (make_ctx_fl fl rr) = rr"
  "c_medrr (make_ctx_fl fl rr) = rollingCentered rr MEDIAN_WINDOW (median_fl fl)"
  by (simp_all add: make_ctx_fl_def Let_def)

lemma walk_fl_inv_final:
  "walk_inv (length rr) (walk_fl fl (make_ctx_fl fl rr) (walk_init (length rr)))"
proof (rule walk_fl_invariant)
  show "walk_inv (length rr) (walk_init (length rr))" by (rule walk_inv_init)
  show "\<forall>s. walk_inv (length rr) s \<longrightarrow> w_i s < c_n (make_ctx_fl fl rr) - 2
               \<longrightarrow> walk_inv (length rr) (walk_step_fl fl (make_ctx_fl fl rr) s)"
    by (auto intro: walk_step_fl_inv simp: make_ctx_fl_sel)
qed

lemma correct1_fl_labelled:
  assumes "length cls = n" and "MissedInserted \<notin> set cls" and "idx < n"
  shows "labelled (correct1_fl fl n rr medrr cls idx)"
proof -
  have "cls ! idx \<noteq> MissedInserted"
    using assms nth_mem [of idx cls] by metis
  then show ?thesis
    by (cases "cls ! idx") (simp_all add: labelled_def correct1_fl_def)
qed

lemma apply_ectopic_fl_length: "length (apply_ectopic_fl fl rr res ps) = length res"
  by (induction fl rr res ps rule: apply_ectopic_fl.induct) (simp_all add: Let_def)

lemma update_pair_subset: "set (res[a := e, b := e]) \<subseteq> insert e (set res)"
  using set_update_subset_insert [of "res[a := e]" b e]
        set_update_subset_insert [of res a e] by auto

lemma apply_ectopic_fl_labelled:
  "\<forall>r \<in> set res. labelled r \<Longrightarrow> \<forall>r \<in> set (apply_ectopic_fl fl rr res ps). labelled r"
proof (induction fl rr res ps rule: apply_ectopic_fl.induct)
  case (1 fl rr res)
  then show ?case by simp
next
  case (2 fl rr res a b ps)
  define e where
    "e = \<lparr>rr_clean = Some (fl (fl (rr ! a + rr ! b) / 2)), artifact_type = Ectopic\<rparr>"
  have "labelled e" by (simp add: labelled_def e_def)
  then have "\<forall>r \<in> set (res[a := e, b := e]). labelled r"
    using "2.prems" update_pair_subset [of res a e b] by auto
  with "2.IH" [of "fl (fl (rr ! a + rr ! b) / 2)"] show ?case
    by (simp add: Let_def e_def)
qed

lemma results_fl_long:
  assumes "\<not> length rr < 4"
  shows "results (analyzeRR_fl fl rr)
           = apply_ectopic_fl fl rr
               (map (correct1_fl fl (length rr) rr (c_medrr (make_ctx_fl fl rr))
                       (classifications (walk_fl fl (make_ctx_fl fl rr) (walk_init (length rr)))))
                  [0..<length rr])
               (ectopicPairs (walk_fl fl (make_ctx_fl fl rr) (walk_init (length rr))))"
  using assms by (simp add: analyzeRR_fl_def Let_def)

lemma results_fl_length: "length (results (analyzeRR_fl fl rr)) = length rr"
  by (cases "length rr < 4")
     (simp_all add: results_fl_long apply_ectopic_fl_length, simp add: analyzeRR_fl_def)

lemma results_fl_labelled: "\<forall>r \<in> set (results (analyzeRR_fl fl rr)). labelled r"
proof (cases "length rr < 4")
  case True
  then show ?thesis by (auto simp: analyzeRR_fl_def labelled_def)
next
  case False
  let ?w = "walk_fl fl (make_ctx_fl fl rr) (walk_init (length rr))"
  have inv: "walk_inv (length rr) ?w" by (rule walk_fl_inv_final)
  have "\<forall>r \<in> set (map (correct1_fl fl (length rr) rr (c_medrr (make_ctx_fl fl rr))
                         (classifications ?w)) [0..<length rr]). labelled r"
    using inv by (auto simp: walk_inv_def intro!: correct1_fl_labelled)
  then show ?thesis
    unfolding results_fl_long [OF False] by (rule apply_ectopic_fl_labelled)
qed

text \<open>
  The clean series has the length the labels give it, in double precision as over the
  reals.
\<close>

lemma cleanSeries_fl_length:
  "length (cleanSeries (analyzeRR_fl fl rr))
     = length (filter (\<lambda>r. artifact_type r \<in> {ANone, Ectopic, Extra, Longshort})
                 (results (analyzeRR_fl fl rr)))
       + 2 * length (filter (\<lambda>r. artifact_type r = Missed) (results (analyzeRR_fl fl rr)))"
proof (cases "length rr < 4")
  case True
  then show ?thesis by (simp add: analyzeRR_fl_def)
next
  case False
  then have "cleanSeries (analyzeRR_fl fl rr) = build_clean (results (analyzeRR_fl fl rr))"
    by (simp add: analyzeRR_fl_def Let_def)
  then show ?thesis
    using build_clean_length [OF results_fl_labelled [of fl rr]] by simp
qed

subsection \<open>Values of intervals of at least \<open>2 powi (- 1073)\<close>\<close>

text \<open>
  Twice \<open>Number.MIN_VALUE\<close> is the least interval whose half is not rounded to zero.
  From there on the sums and the halves of the corrections stay at or above it.
\<close>

lemma round64_half_sum:
  assumes "2 powi (- 1073) \<le> a" and "2 powi (- 1073) \<le> b"
  shows "2 powi (- 1073) \<le> round64 (round64 (a + b) / 2)"
proof -
  have "(2::real) powi (- 1072) = 2 powi (- 1073) + 2 powi (- 1073)"
    using power_int_add [of "2::real" "- 1073" 1] by simp
  with assms have "2 powi (- 1072) \<le> a + b" by simp
  then have "2 powi (- 1072) \<le> round64 (a + b)"
    by (rule round64_pos) simp
  moreover have "(2::real) powi (- 1072) / 2 = 2 powi (- 1073)"
    using power_int_diff [of "2::real" "- 1072" 1] by simp
  ultimately have "2 powi (- 1073) \<le> round64 (a + b) / 2" by simp
  then show ?thesis by (rule round64_pos) simp
qed

lemma median64_lower:
  assumes "xs \<noteq> []" and "\<forall>x \<in> set xs. 2 powi (- 1073) \<le> x"
  shows "2 powi (- 1073) \<le> median_fl round64 xs"
proof -
  define sorted where "sorted = sort xs"
  have l: "length sorted = length xs" and s: "set sorted = set xs"
    by (simp_all add: sorted_def)
  have p: "2 powi (- 1073) \<le> sorted ! k" if "k < length xs" for k
    using that assms(2) l s nth_mem [of k sorted] by auto
  have n: "0 < length xs" using assms(1) by simp
  then have "length xs div 2 < length xs" "length xs div 2 - 1 < length xs" by arith+
  then have a: "2 powi (- 1073) \<le> sorted ! (length xs div 2)"
    and b: "2 powi (- 1073) \<le> sorted ! (length xs div 2 - 1)"
    using p by blast+
  show ?thesis
    using assms(1) a round64_half_sum [OF b a]
    by (simp add: median_fl_def Let_def l flip: sorted_def)
qed

lemma medrr64_lower:
  assumes "\<forall>x \<in> set rr. 2 powi (- 1073) \<le> x" and "i < length rr"
  shows "2 powi (- 1073) \<le> c_medrr (make_ctx_fl round64 rr) ! i"
proof -
  have "c_medrr (make_ctx_fl round64 rr) ! i
          = median_fl round64 (slice rr (i - MEDIAN_WINDOW div 2)
                      (min (length rr) (i + MEDIAN_WINDOW div 2 + 1)))"
    using assms(2) by (simp add: make_ctx_fl_sel rollingCentered_nth)
  moreover have "2 powi (- 1073) \<le> median_fl round64 (slice rr (i - MEDIAN_WINDOW div 2)
                      (min (length rr) (i + MEDIAN_WINDOW div 2 + 1)))"
    using slice_window [OF assms(2), of "MEDIAN_WINDOW div 2"] assms(1)
    by (intro median64_lower) auto
  ultimately show ?thesis by simp
qed

lemma correct1_64_positive:
  assumes "\<forall>x \<in> set rr. 2 powi (- 1073) \<le> x" and "length rr = n" and "idx < n"
    and "2 powi (- 1073) \<le> medrr ! idx"
  shows "positive (correct1_fl round64 n rr medrr cls idx)"
proof -
  have z: "(0::real) < 2 powi (- 1073)" by simp
  have a: "2 powi (- 1073) \<le> rr ! idx" using assms(1-3) nth_mem [of idx rr] by auto
  have b: "idx + 1 < n \<Longrightarrow> 2 powi (- 1073) \<le> rr ! (idx + 1)"
    using assms(1,2) nth_mem [of "idx + 1" rr] by auto
  have "(2::real) powi (- 1074) = 2 powi (- 1073) / 2"
    using power_int_diff [of "2::real" "- 1073" 1] by simp
  with a have "2 powi (- 1074) \<le> rr ! idx / 2" by simp
  then have "2 powi (- 1074) \<le> round64 (rr ! idx / 2)"
    by (rule round64_pos) simp
  moreover have "(0::real) < 2 powi (- 1074)" by simp
  ultimately have half: "0 < round64 (rr ! idx / 2)" by linarith
  have sum: "0 < round64 (rr ! idx + rr ! (idx + 1))" if "idx + 1 < n"
  proof -
    from a b [OF that] z have "2 powi (- 1073) \<le> rr ! idx + rr ! (idx + 1)" by linarith
    then have "2 powi (- 1073) \<le> round64 (rr ! idx + rr ! (idx + 1))"
      by (rule round64_pos) simp
    with z show ?thesis by linarith
  qed
  have own: "0 < rr ! idx" using a z by linarith
  have med: "0 < medrr ! idx" using assms(4) z by linarith
  show ?thesis
    using half sum own med
    by (cases "cls ! idx") (auto simp: positive_def correct1_fl_def)
qed

lemma apply_ectopic64_positive:
  assumes "\<forall>x \<in> set rr. 2 powi (- 1073) \<le> x"
    and "\<forall>p \<in> set ps. fst p < length rr \<and> snd p < length rr"
    and "\<forall>r \<in> set res. positive r"
  shows "\<forall>r \<in> set (apply_ectopic_fl round64 rr res ps). positive r"
  using assms
proof (induction round64 rr res ps rule: apply_ectopic_fl.induct)
  case (1 rr res)
  then show ?case by simp
next
  case (2 rr res a b ps)
  define e where
    "e = \<lparr>rr_clean = Some (round64 (round64 (rr ! a + rr ! b) / 2)), artifact_type = Ectopic\<rparr>"
  have "2 powi (- 1073) \<le> rr ! a" "2 powi (- 1073) \<le> rr ! b"
    using "2.prems"(1,2) nth_mem [of a rr] nth_mem [of b rr] by auto
  then have "2 powi (- 1073) \<le> round64 (round64 (rr ! a + rr ! b) / 2)"
    by (rule round64_half_sum)
  moreover have "(0::real) < 2 powi (- 1073)" by simp
  ultimately have "0 < round64 (round64 (rr ! a + rr ! b) / 2)" by linarith
  then have "positive e" by (simp add: positive_def e_def)
  then have "\<forall>r \<in> set (res[a := e, b := e]). positive r"
    using "2.prems"(3) update_pair_subset [of res a e b] by auto
  with "2.hyps" [of "round64 (round64 (rr ! a + rr ! b) / 2)"] "2.prems"(1,2) show ?case
    by (simp add: Let_def e_def)
qed

lemma results64_positive:
  assumes "\<forall>x \<in> set rr. 2 powi (- 1073) \<le> x"
  shows "\<forall>r \<in> set (results (analyzeRR64 rr)). positive r"
proof (cases "length rr < 4")
  case True
  have "(0::real) < 2 powi (- 1073)" by simp
  with assms have "\<forall>x \<in> set rr. 0 < x" by force
  with True show ?thesis by (auto simp: analyzeRR64_def analyzeRR_fl_def positive_def)
next
  case False
  let ?w = "walk_fl round64 (make_ctx_fl round64 rr) (walk_init (length rr))"
  have inv: "walk_inv (length rr) ?w" by (rule walk_fl_inv_final)
  have "\<forall>r \<in> set (map (correct1_fl round64 (length rr) rr (c_medrr (make_ctx_fl round64 rr))
                         (classifications ?w)) [0..<length rr]). positive r"
    using assms by (auto intro!: correct1_64_positive medrr64_lower)
  moreover have "\<forall>p \<in> set (ectopicPairs ?w). fst p < length rr \<and> snd p < length rr"
    using inv by (simp add: walk_inv_def)
  ultimately show ?thesis
    unfolding analyzeRR64_def results_fl_long [OF False]
    using assms by (intro apply_ectopic64_positive)
qed

subsection \<open>The ectopic branch in double precision\<close>

text \<open>
  What claim C5 says of the walk over the reals holds of the walk in double precision as
  well: the rounded bound of the ectopic test keeps the sign of \<open>-drrs[0]\<close>, so the test
  fails at 0, and at another index it records the pair and moves on by 2.
\<close>

lemma C_nonneg: "0 \<le> round64 C1" "0 \<le> round64 C2"
  by (rule round64_nonneg, simp add: C1_def, rule round64_nonneg, simp add: C2_def)

lemma not_ectopic64_first:
  assumes "rr \<noteq> []"
  shows "\<not> isEctopic_fl round64 (make_ctx_fl round64 rr) 0"
proof -
  define d where "d = c_drrs (make_ctx_fl round64 rr) ! 0"
  from assms have z: "c_s12 (make_ctx_fl round64 rr) ! 0 = 0"
    by (simp add: make_ctx_fl_def Let_def s12_first)
  have up: "round64 (round64 (- round64 C1 * d) - round64 C2) \<le> 0" if "1 < d"
  proof -
    from that have "- round64 C1 * d \<le> 0"
      using C_nonneg(1) by (simp add: mult_nonneg_nonneg)
    then have "round64 (- round64 C1 * d) \<le> 0" by (rule round64_nonpos)
    with C_nonneg(2) have "round64 (- round64 C1 * d) - round64 C2 \<le> 0" by simp
    then show ?thesis by (rule round64_nonpos)
  qed
  have down: "0 \<le> round64 (round64 (- round64 C1 * d) + round64 C2)" if "d < - 1"
  proof -
    from that have "0 \<le> round64 C1 * (- d)"
      using C_nonneg(1) by (intro mult_nonneg_nonneg) simp_all
    then have "0 \<le> - round64 C1 * d" by simp
    then have "0 \<le> round64 (- round64 C1 * d)" by (rule round64_nonneg)
    with C_nonneg(2) have "0 \<le> round64 (- round64 C1 * d) + round64 C2" by simp
    then show ?thesis by (rule round64_nonneg)
  qed
  show ?thesis
    using up down by (auto simp: isEctopic_fl_def z simp flip: d_def)
qed

lemma walk_step64_ectopic:
  assumes "4 \<le> length rr" and "isEctopic_fl round64 (make_ctx_fl round64 rr) (w_i s)"
  shows "0 < w_i s"
    and "walk_step_fl round64 (make_ctx_fl round64 rr) s
           = s\<lparr>w_i := w_i s + 2, ectopicPairs := ectopicPairs s @ [(w_i s - 1, w_i s)]\<rparr>"
proof -
  from assms(1) have "rr \<noteq> []" by auto
  then have "\<not> isEctopic_fl round64 (make_ctx_fl round64 rr) 0"
    by (rule not_ectopic64_first)
  with assms(2) show pos: "0 < w_i s" by (cases "w_i s = 0") simp_all
  from assms(2) have "\<not> \<bar>c_drrs (make_ctx_fl round64 rr) ! w_i s\<bar> \<le> 1"
    by (auto simp: isEctopic_fl_def)
  with assms(2) pos show "walk_step_fl round64 (make_ctx_fl round64 rr) s
        = s\<lparr>w_i := w_i s + 2, ectopicPairs := ectopicPairs s @ [(w_i s - 1, w_i s)]\<rparr>"
    by (simp add: walk_step_fl_def Let_def)
qed

subsection \<open>A first beat labelled \<open>missed\<close>\<close>

lemma try_candidates_fl_keeps:
  "try_candidates_fl fl c cls js = Some (cls', i') \<Longrightarrow> \<forall>j \<in> set js. k < j
     \<Longrightarrow> cls' ! k = cls ! k"
  by (induction js) (auto split: if_splits)

lemma walk_step_fl_first:
  assumes "first_missed s"
  shows "first_missed (walk_step_fl fl c s)"
proof -
  have i: "2 \<le> w_i s" and m: "classifications s ! 0 = Missed"
    and p: "\<forall>p \<in> set (ectopicPairs s). 0 < fst p \<and> 0 < snd p"
    using assms by (simp_all add: first_missed_def)
  have adv: "first_missed (s\<lparr>w_i := k\<rparr>)" if "2 \<le> k" for k
    using that m p by (simp add: first_missed_def)
  have upd: "first_missed (s\<lparr>w_i := k, classifications := (classifications s)[j := t]\<rparr>)"
    if "2 \<le> k" and "0 < j" for k j t
    using that m p by (simp add: first_missed_def)
  have pair: "first_missed (s\<lparr>w_i := k, ectopicPairs := ectopicPairs s @ [(a, b)]\<rparr>)"
    if "2 \<le> k" and "0 < a" and "0 < b" for k a b
    using that m p by (simp add: first_missed_def)
  have cand: "first_missed (s\<lparr>w_i := i', classifications := cls\<rparr>)"
    if t: "try_candidates_fl fl c (classifications s) (candidates c (w_i s)) = Some (cls, i')"
    for cls i'
  proof -
    have j: "\<forall>j \<in> set (candidates c (w_i s)). 0 < j"
      using i by (auto simp: candidates_def)
    from try_candidates_fl_next [OF t] have "2 \<le> i'" by auto
    moreover from try_candidates_fl_keeps [OF t j] m have "cls ! 0 = Missed" by simp
    ultimately show ?thesis using p by (simp add: first_missed_def)
  qed
  show ?thesis
  proof (cases "try_candidates_fl fl c (classifications s) (candidates c (w_i s))")
    case None
    then show ?thesis
      unfolding walk_step_fl_def Let_def
      using i by (auto intro!: adv upd pair)
  next
    case (Some r)
    obtain cls i' where r: "r = (cls, i')" by (cases r)
    from Some r have "first_missed (s\<lparr>w_i := i', classifications := cls\<rparr>)"
      by (intro cand) simp
    with Some r show ?thesis
      unfolding walk_step_fl_def Let_def
      using i by (auto intro!: adv pair)
  qed
qed

lemma apply_ectopic_fl_first:
  "\<forall>p \<in> set ps. 0 < fst p \<and> 0 < snd p \<Longrightarrow> apply_ectopic_fl fl rr res ps ! 0 = res ! 0"
  by (induction fl rr res ps rule: apply_ectopic_fl.induct) (simp_all add: Let_def)

text \<open>
  When the normalised first difference exceeds 1, the ectopic test fails at 0 and the
  test for a missed beat holds there, the first result is the half of the first interval,
  labelled \<open>missed\<close>.
\<close>

lemma analyzeRR_fl_first_missed:
  assumes "4 \<le> length rr"
    and "1 < c_drrs (make_ctx_fl fl rr) ! 0"
    and "\<not> isEctopic_fl fl (make_ctx_fl fl rr) 0"
    and "missed_test_fl fl (make_ctx_fl fl rr) 0"
  shows "results (analyzeRR_fl fl rr) ! 0
           = \<lparr>rr_clean = Some (fl (rr ! 0 / 2)), artifact_type = Missed\<rparr>"
proof -
  define c where "c = make_ctx_fl fl rr"
  define n where "n = length rr"
  define s1 where "s1 = \<lparr>w_i = 2, classifications = (replicate n ANone)[0 := Missed],
                           ectopicPairs = []\<rparr>"
  have n: "c_n c = n" "4 \<le> n" using assms(1) by (simp_all add: c_def n_def make_ctx_fl_sel)
  have d: "1 < c_drrs c ! 0" "\<not> isEctopic_fl fl c 0" "missed_test_fl fl c 0"
    using assms(2-4) by (simp_all add: c_def)
  from d(1) have x: "\<not> extra_test_fl fl c 0" by (simp add: extra_test_fl_def)
  have "try_candidates_fl fl c (replicate n ANone) (candidates c 0)
          = Some ((replicate n ANone)[0 := Missed], 2)"
    using x d(3) by (simp add: candidates_def)
  then have step: "walk_step_fl fl c (walk_init n) = s1"
    using d(1,2) by (simp add: walk_step_fl_def walk_init_def s1_def)
  have "walk_fl fl c (walk_init n) = walk_fl fl c s1"
    using n step by (subst walk_fl.simps) (simp add: walk_init_def)
  moreover have "first_missed s1"
    using n(2) by (simp add: first_missed_def s1_def)
  then have "first_missed (walk_fl fl c s1)"
    by (rule walk_fl_invariant) (simp add: walk_step_fl_first)
  ultimately have f: "first_missed (walk_fl fl c (walk_init n))" by simp
  have "results (analyzeRR_fl fl rr) ! 0
          = map (correct1_fl fl n rr (c_medrr c) (classifications (walk_fl fl c (walk_init n))))
              [0..<n] ! 0"
    using assms(1) f
    by (simp add: results_fl_long apply_ectopic_fl_first first_missed_def flip: c_def n_def)
  also have "\<dots> = correct1_fl fl n rr (c_medrr c)
                     (classifications (walk_fl fl c (walk_init n))) 0"
    using n(2) by (simp add: nth_map_upt)
  also have "\<dots> = \<lparr>rr_clean = Some (fl (rr ! 0 / 2)), artifact_type = Missed\<rparr>"
    using f by (simp add: correct1_fl_def first_missed_def)
  finally show ?thesis .
qed

subsection \<open>The classifier on a series that starts with a very short interval\<close>

text \<open>
  The series \<open>rr_tiny v\<close> is \<open>v, 80, 10, 80, 300\<close>. For \<open>0 < v \<le> 2 powi (- 60)\<close> the
  differences and the medians do not see \<open>v\<close>: next to 80 the doubles are
  \<open>2 powi (- 46)\<close> apart.
\<close>

lemma round64_80_minus:
  assumes "0 < v" and "v \<le> 1 / 2 ^ 60"
  shows "round64 (80 - v) = 80"
proof -
  define x where "x = 80 - v"
  have e: "expo x = 6"
    using assms by (intro expo_eq) (simp_all add: x_def)
  have r: "rhe (x * 70368744177664) = 5629499534213120"
    using assms by (intro rhe_near) (simp add: x_def)
  have "0 < x" using assms by (simp add: x_def)
  from round64_pos_unfold [OF this]
  have "round64 x = of_int (rhe (x * 70368744177664)) / 70368744177664"
    by (simp add: e power_int_minus)
  then have "round64 x = 80" by (simp add: r)
  then show ?thesis by (simp add: x_def)
qed

lemma round64_minus_80:
  assumes "0 < v" and "v \<le> 1 / 2 ^ 60"
  shows "round64 (v - 80) = - 80"
  using round64_minus [of "80 - v"] by (simp add: round64_80_minus [OF assms])

lemma THRESHOLD_FACTOR_bounds:
  "5 \<le> round64 THRESHOLD_FACTOR" "round64 THRESHOLD_FACTOR \<le> 6"
proof -
  show "5 \<le> round64 THRESHOLD_FACTOR"
    using round64_ge [of 5 0 THRESHOLD_FACTOR] by (simp add: THRESHOLD_FACTOR_def)
  show "round64 THRESHOLD_FACTOR \<le> 6"
    using round64_le [of THRESHOLD_FACTOR 6 0] by (simp add: THRESHOLD_FACTOR_def)
qed

lemma rolling_whole:
  assumes "length arr \<le> w div 2 + 1"
  shows "rollingCentered arr w fn = replicate (length arr) (fn arr)"
proof -
  have "slice arr (i - w div 2) (min (length arr) (i + w div 2 + 1)) = arr"
    if "i < length arr" for i
    using that assms by (simp add: slice_def min_def)
  then have "map (\<lambda>i. fn (slice arr (i - w div 2) (min (length arr) (i + w div 2 + 1))))
               [0..<length arr]
             = map (\<lambda>i. fn arr) [0..<length arr]"
    by (intro map_cong) simp_all
  then show ?thesis
    by (simp add: rollingCentered_def Let_def map_replicate_const)
qed

lemma upt_5: "[0..<5] = [0, 1, 2, 3, 4]" "[1..<5] = [1, 2, 3, 4]"
  by code_simp+

lemma replicate_5: "replicate 5 x = [x, x, x, x, x]"
  by (simp add: eval_nat_numeral)

lemma s22_first: "2 < n \<Longrightarrow> 0 \<le> drrs ! 0 \<Longrightarrow> s22_of n drrs ! 0 = min (drrs ! 1) (drrs ! 2)"
  by (simp add: s22_of_def upt_conv_Cons numeral_2_eq_2)

lemma dRR_tiny:
  assumes "0 < v" and "v \<le> 1 / 2 ^ 60"
  shows "dRR_of_fl round64 (rr_tiny v) = [75, 80, - 70, 70, 220]"
  by (simp add: dRR_of_fl_def rr_tiny_def upt_5 round64_80_minus [OF assms] round64_numeral
      round64_neg_numeral)

lemma qd_dRR: "quartileDeviation_fl round64 [75, 80, - 70, 70, 220] = 5"
  by (simp add: quartileDeviation_fl_def quantile_fl_def Let_def round64_numeral round64_0
      round64_1)

lemma threshold_dRR: "threshold_fl round64 [75, 80, - 70, 70, 220] = 50"
proof -
  have "0 < round64 THRESHOLD_FACTOR * 5" "round64 THRESHOLD_FACTOR * 5 \<le> 50"
    using THRESHOLD_FACTOR_bounds by simp_all
  then have "round64 (round64 THRESHOLD_FACTOR * 5) \<le> 50"
    using round64_le [of "round64 THRESHOLD_FACTOR * 5" 50 0] by simp
  then show ?thesis
    by (simp add: threshold_fl_def qd_dRR MIN_THRESHOLD_def)
qed

lemma median_tiny:
  assumes "v \<le> 1 / 2 ^ 60"
  shows "median_fl round64 (rr_tiny v) = 80"
proof -
  from assms have "v \<le> 10" by (rule order_trans) simp
  then show ?thesis by (simp add: median_fl_def rr_tiny_def)
qed

lemma mRR_tiny:
  assumes "0 < v" and "v \<le> 1 / 2 ^ 60"
  shows "mRR_of_fl round64 (rr_tiny v) [80, 80, 80, 80, 80] = [- 160, 0, - 140, 0, 220]"
  by (simp add: mRR_of_fl_def rr_tiny_def upt_5 round64_minus_80 [OF assms] round64_numeral
      round64_neg_numeral round64_0)

lemma qd_mRR: "quartileDeviation_fl round64 [- 160, 0, - 140, 0, 220] = 70"
  by (simp add: quartileDeviation_fl_def quantile_fl_def Let_def round64_numeral round64_0
      round64_1 round64_neg_numeral)

lemma threshold_mRR: "350 \<le> threshold_fl round64 [- 160, 0, - 140, 0, 220]"
proof -
  have "350 \<le> round64 THRESHOLD_FACTOR * 70"
    using THRESHOLD_FACTOR_bounds by simp
  then have "350 \<le> round64 (round64 THRESHOLD_FACTOR * 70)"
    using round64_ge [of 350 0 "round64 THRESHOLD_FACTOR * 70"] by simp
  then show ?thesis
    by (simp add: threshold_fl_def qd_mRR)
qed

text \<open>
  The arrays of the walk: the first difference, 75, is 1.5 thresholds; the third, -70, is
  more than a threshold below 0; the local median is 80 and its threshold at least 350.
\<close>

lemma ctx_tiny:
  assumes "0 < v" and "v \<le> 1 / 2 ^ 60"
  shows "c_rr (make_ctx_fl round64 (rr_tiny v)) ! 0 = v"
    and "c_drrs (make_ctx_fl round64 (rr_tiny v)) ! 0 = 3 / 2"
    and "c_s22 (make_ctx_fl round64 (rr_tiny v)) ! 0 \<le> - 5 / 4"
    and "c_medrr (make_ctx_fl round64 (rr_tiny v)) ! 0 = 80"
    and "350 \<le> c_th2 (make_ctx_fl round64 (rr_tiny v)) ! 0"
proof -
  note dRR = dRR_tiny [OF assms] and mRR = mRR_tiny [OF assms]
  have len: "length (rr_tiny v) = 5" by (simp add: rr_tiny_def)
  have th1: "rollingCentered [75, 80, - 70, 70, 220] QD_WINDOW (threshold_fl round64)
               = [50, 50, 50, 50, 50]"
    by (simp add: rolling_whole QD_WINDOW_def threshold_dRR)
  have med: "rollingCentered (rr_tiny v) MEDIAN_WINDOW (median_fl round64)
               = [80, 80, 80, 80, 80]"
    by (simp add: rolling_whole len MEDIAN_WINDOW_def median_tiny [OF assms(2)] replicate_5)
  have th2: "rollingCentered [- 160, 0, - 140, 0, 220] QD_WINDOW (threshold_fl round64) ! 0
               = threshold_fl round64 [- 160, 0, - 140, 0, 220]"
    by (simp add: rolling_whole QD_WINDOW_def)
  define drrs where "drrs = normalize_fl round64 [75, 80, - 70, 70, 220] [50, 50, 50, 50, 50]"
  have d0: "drrs ! 0 = 3 / 2"
    using round64_rep [of 3 "- 1"] by (simp add: drrs_def normalize_fl_def upt_5)
  have "5 / 4 \<le> round64 (7 / 5)"
    using round64_ge [of 5 "- 2" "7 / 5"] by simp
  then have d2: "drrs ! 2 \<le> - 5 / 4"
    using round64_minus [of "7 / 5"] by (simp add: drrs_def normalize_fl_def upt_5)
  have s22: "s22_of 5 drrs ! 0 \<le> - 5 / 4"
    using d0 d2 by (simp add: s22_first)
  show "c_rr (make_ctx_fl round64 (rr_tiny v)) ! 0 = v"
    by (simp add: make_ctx_fl_sel) (simp add: rr_tiny_def)
  show "c_drrs (make_ctx_fl round64 (rr_tiny v)) ! 0 = 3 / 2"
    using d0 by (simp add: make_ctx_fl_def Let_def th1 dRR drrs_def)
  show "c_s22 (make_ctx_fl round64 (rr_tiny v)) ! 0 \<le> - 5 / 4"
    using s22 by (simp add: make_ctx_fl_def Let_def th1 dRR len drrs_def)
  show "c_medrr (make_ctx_fl round64 (rr_tiny v)) ! 0 = 80"
    by (simp add: make_ctx_fl_sel med)
  show "350 \<le> c_th2 (make_ctx_fl round64 (rr_tiny v)) ! 0"
    using threshold_mRR by (simp add: make_ctx_fl_def Let_def med mRR th2)
qed

lemma missed_tiny:
  assumes "0 < v" and "v \<le> 1 / 2 ^ 60"
  shows "missed_test_fl round64 (make_ctx_fl round64 (rr_tiny v)) 0"
proof -
  define w where "w = round64 (v / 2)"
  have "0 \<le> w" unfolding w_def using assms(1) by (intro round64_nonneg) simp
  moreover have "w \<le> 1"
    unfolding w_def using assms round64_le [of "v / 2" 1 0]
    by (simp add: order_trans [of "v / 2" "1 / 2 ^ 60" 1])
  ultimately have b: "79 \<le> 80 - w" "0 < 80 - w" "80 - w \<le> 80" by simp_all
  have "79 \<le> round64 (80 - w)"
    using round64_ge [of 79 0 "80 - w"] b(1) by simp
  moreover have "round64 (80 - w) \<le> 80"
    using round64_le [of "80 - w" 80 0] b(2,3) by simp
  moreover have "round64 (w - 80) = - round64 (80 - w)"
    using round64_minus [of "80 - w"] by simp
  ultimately have "\<bar>round64 (w - 80)\<bar> \<le> 80" by simp
  with ctx_tiny(5) [OF assms] have
    "\<bar>round64 (w - 80)\<bar> < c_th2 (make_ctx_fl round64 (rr_tiny v)) ! 0" by linarith
  moreover have "c_s22 (make_ctx_fl round64 (rr_tiny v)) ! 0 < - 1"
    using ctx_tiny(3) [OF assms] by linarith
  ultimately show ?thesis
    by (simp add: missed_test_fl_def ctx_tiny(1,2,4) [OF assms] w_def)
qed

text \<open>
  So the first beat of \<open>rr_tiny v\<close> is labelled \<open>missed\<close>, and its value is the
  rounded half of \<open>v\<close>.
\<close>

lemma results_tiny:
  assumes "0 < v" and "v \<le> 1 / 2 ^ 60"
  shows "results (analyzeRR64 (rr_tiny v)) ! 0
           = \<lparr>rr_clean = Some (round64 (v / 2)), artifact_type = Missed\<rparr>"
proof -
  have "results (analyzeRR_fl round64 (rr_tiny v)) ! 0
          = \<lparr>rr_clean = Some (round64 (rr_tiny v ! 0 / 2)), artifact_type = Missed\<rparr>"
  proof (rule analyzeRR_fl_first_missed)
    show "4 \<le> length (rr_tiny v)" by (simp add: rr_tiny_def)
    show "1 < c_drrs (make_ctx_fl round64 (rr_tiny v)) ! 0"
      by (simp add: ctx_tiny(2) [OF assms])
  next
    show "\<not> isEctopic_fl round64 (make_ctx_fl round64 (rr_tiny v)) 0"
      by (rule not_ectopic64_first) (simp add: rr_tiny_def)
  qed (rule missed_tiny [OF assms])
  then show ?thesis by (simp add: analyzeRR64_def rr_tiny_def)
qed

text \<open>Half of the least double is a tie between 0 and the least double, and 0 is even.\<close>

lemma MIN_VALUE_pos: "0 < MIN_VALUE"
  by (simp add: MIN_VALUE_def)

lemma MIN_VALUE_small: "2 * MIN_VALUE \<le> 1 / 2 ^ 60"
proof -
  have "(2::real) powi (- 1073) \<le> 2 powi (- 60)"
    by (rule power_int_increasing) simp_all
  moreover have "2 * MIN_VALUE = 2 powi (- 1073)"
    using power_int_add [of "2::real" "- 1074" 1] by (simp add: MIN_VALUE_def)
  ultimately show ?thesis by (simp add: power_int_minus field_simps)
qed

lemma round64_half_MIN_VALUE: "round64 (MIN_VALUE / 2) = 0"
proof -
  define x where "x = MIN_VALUE / 2"
  have x: "x = 2 powi (- 1075)"
    using power_int_diff [of "2::real" "- 1074" 1] by (simp add: x_def MIN_VALUE_def)
  have e: "expo x = - 1075"
    unfolding x by (rule expo_eq) (simp_all add: power_int_strict_increasing)
  have "(2::real) powi (- 1075 - (- 1074)) = 2 powi (- 1075) / 2 powi (- 1074)"
    by (rule power_int_diff) simp
  moreover have "(2::real) powi (- 1075 - (- 1074)) = 1 / 2"
    by (simp add: power_int_minus)
  ultimately have h: "x / 2 powi (- 1074) = 1 / 2"
    by (simp only: x)
  have "rhe (1 / 2) = 0"
    by (simp add: rhe_def)
  then have r: "rhe (x / 2 powi (- 1074)) = 0"
    by (simp only: h)
  have m: "max (expo x - 52) (- 1074) = - 1074"
    by (simp add: e)
  have "0 < x" by (simp only: x zero_less_power_int zero_less_numeral)
  from round64_pos_unfold [OF this] have "round64 x = 0"
    by (simp only: m r of_int_0 mult_zero_left)
  then show ?thesis by (simp only: x_def)
qed

lemma round64_MIN_VALUE: "round64 MIN_VALUE = MIN_VALUE"
  using round64_rep [of 1 "- 1074"] by (simp add: MIN_VALUE_def)

subsection \<open>Labels and values\<close>

text \<open>
  Claim C3, as stated, fails in double precision: the least positive double is a positive
  interval, and its half, the value of a beat labelled \<open>missed\<close>, is rounded to zero.
  On the series \<open>MIN_VALUE, 80, 10, 80, 300\<close> the first result is labelled
  \<open>missed\<close> and its \<open>rr_clean\<close> is 0.
\<close>

theorem analyzeRR64_min_value:
  "rr_tiny MIN_VALUE = [MIN_VALUE, 80, 10, 80, 300]
   \<and> 0 < MIN_VALUE
   \<and> results (analyzeRR64 (rr_tiny MIN_VALUE)) ! 0
       = \<lparr>rr_clean = Some 0, artifact_type = Missed\<rparr>"
proof -
  have "MIN_VALUE \<le> 1 / 2 ^ 60"
    using MIN_VALUE_small MIN_VALUE_pos by linarith
  from results_tiny [OF MIN_VALUE_pos this] show ?thesis
    by (simp add: round64_half_MIN_VALUE MIN_VALUE_pos rr_tiny_def)
qed

text \<open>
  Claim C3, amended. For intervals of at least \<open>2 powi (- 1073)\<close>, which is twice the
  least positive double, there is one result per beat; its label is one of \<open>none\<close>,
  \<open>ectopic\<close>, \<open>missed\<close>, \<open>extra\<close>, \<open>extra_absorbed\<close>, \<open>longshort\<close>; its
  \<open>rr_clean\<close> is null when the label is \<open>extra_absorbed\<close> and a positive number
  otherwise. The bounds \<open>2 ^ 900\<close> on the intervals and \<open>2 ^ 32\<close> on their number
  (the bound of the source's arrays) keep every operation of the classifier below
  \<open>2 ^ 1024\<close>, where \<open>round64\<close> is the arithmetic of the source.
\<close>

theorem analyzeRR64_labels_and_values:
  assumes "\<forall>x \<in> set rr. 2 powi (- 1073) \<le> x \<and> x \<le> 2 ^ 900"
    and "length rr < 2 ^ 32" and "i < length rr"
  shows "length (results (analyzeRR64 rr)) = length rr
       \<and> artifact_type (results (analyzeRR64 rr) ! i)
           \<in> {ANone, Ectopic, Missed, Extra, ExtraAbsorbed, Longshort}
       \<and> (if artifact_type (results (analyzeRR64 rr) ! i) = ExtraAbsorbed
          then rr_clean (results (analyzeRR64 rr) ! i) = None
          else \<exists>v. rr_clean (results (analyzeRR64 rr) ! i) = Some v \<and> 0 < v)"
proof -
  define r where "r = results (analyzeRR64 rr) ! i"
  have len: "length (results (analyzeRR64 rr)) = length rr"
    by (simp add: analyzeRR64_def results_fl_length)
  with assms(3) have m: "r \<in> set (results (analyzeRR64 rr))"
    by (simp add: r_def)
  have l: "labelled r"
    using results_fl_labelled [of round64 rr] m by (simp add: analyzeRR64_def)
  from assms(1) have "\<forall>x \<in> set rr. 2 powi (- 1073) \<le> x" by simp
  then have p: "positive r" using results64_positive m by blast
  have t: "artifact_type r \<in> {ANone, Ectopic, Missed, Extra, ExtraAbsorbed, Longshort}"
    using l by (cases "artifact_type r") (simp_all add: labelled_def)
  have v: "if artifact_type r = ExtraAbsorbed then rr_clean r = None
           else \<exists>v. rr_clean r = Some v \<and> 0 < v"
    using l p by (cases "rr_clean r") (auto simp: labelled_def positive_def)
  show ?thesis using len t v unfolding r_def by blast
qed

text \<open>
  Claim C3, amended, on the series \<open>2 * MIN_VALUE, 80, 10, 80, 300\<close>: the first
  result is labelled \<open>missed\<close>, and its value is the least positive double.
\<close>

theorem analyzeRR64_labels_and_values_witness:
  "length (results (analyzeRR64 (rr_tiny (2 * MIN_VALUE)))) = 5
   \<and> artifact_type (results (analyzeRR64 (rr_tiny (2 * MIN_VALUE))) ! 0) = Missed
   \<and> rr_clean (results (analyzeRR64 (rr_tiny (2 * MIN_VALUE))) ! 0) = Some MIN_VALUE
   \<and> 0 < MIN_VALUE"
proof -
  have m: "2 * MIN_VALUE = 2 powi (- 1073)"
    using power_int_add [of "2::real" "- 1074" 1] by (simp add: MIN_VALUE_def)
  have "(2::real) powi (- 1073) \<le> 2 powi 0"
    by (rule power_int_increasing) simp_all
  then have s: "(2::real) powi (- 1073) \<le> 1" by simp
  have a: "\<forall>x \<in> set (rr_tiny (2 * MIN_VALUE)). 2 powi (- 1073) \<le> x \<and> x \<le> 2 ^ 900"
    using s by (simp add: rr_tiny_def m order_trans [OF s])
  have b: "length (rr_tiny (2 * MIN_VALUE)) < 2 ^ 32" "0 < length (rr_tiny (2 * MIN_VALUE))"
    by (simp_all add: rr_tiny_def)
  have "0 < 2 * MIN_VALUE" using MIN_VALUE_pos by simp
  from results_tiny [OF this MIN_VALUE_small]
  have r: "results (analyzeRR64 (rr_tiny (2 * MIN_VALUE))) ! 0
             = \<lparr>rr_clean = Some MIN_VALUE, artifact_type = Missed\<rparr>"
    by (simp add: round64_MIN_VALUE)
  show ?thesis
    using analyzeRR64_labels_and_values [OF a b] r MIN_VALUE_pos
    by (simp add: rr_tiny_def)
qed

section \<open>POST /beats\<close>

text \<open>
  Claim C10, as stated, fails: a request with an empty \<open>rrIntervals\<close> and no device
  is answered 400, since the guard on the device comes first.
\<close>

theorem post_beats_empty_no_device:
  "req_rrIntervals req_empty_no_device = Some []
   \<and> fst (post_beats env0 req_empty_no_device hub0) = Resp400 InvalidRequest"
  by (simp add: post_beats_def req_empty_no_device_def)

text \<open>
  Claim C10, amended. A request that names a device and whose \<open>rrIntervals\<close> is an
  empty array is answered \<open>{ok: true, received: 0}\<close>, and the process state and the
  writes issued are what they were before the request.
\<close>

theorem post_beats_empty:
  assumes "truthy_str (req_device req)" and "req_rrIntervals req = Some []"
  shows "post_beats e req h = (RespBeats 0, h)"
  using assms by (auto simp: post_beats_def truthy_str_def split: option.splits)

text \<open>Claim C10, amended, for the device \<open>H10\<close>.\<close>

theorem post_beats_empty_witness:
  "truthy_str (req_device req_empty) \<and> req_rrIntervals req_empty = Some []
   \<and> post_beats env0 req_empty hub0 = (RespBeats 0, hub0)"
  using post_beats_empty [of req_empty env0 hub0]
  by (simp add: req_empty_def truthy_str_def)

subsection \<open>The raw beats of a request\<close>









section \<open>POST /beats/batch\<close>

subsection \<open>The chunked write and the shape of the handler\<close>


lemma chunkedWrite_error:
  "fst (chunkedWrite e points issued) = Some err \<Longrightarrow> \<exists>chunk. writePoints e chunk \<noteq> None"
proof (induction e points issued rule: chunkedWrite.induct)
  case (1 e points issued)
  show ?case
  proof (cases "points = [] \<or> writePoints e (take BATCH_CHUNK_SIZE points) \<noteq> None")
    case True
    with "1.prems" show ?thesis
      by (subst (asm) chunkedWrite.simps) (auto simp: Let_def split: option.splits if_splits)
  next
    case False
    with "1.prems" have
      "fst (chunkedWrite e (drop BATCH_CHUNK_SIZE points) (issued @ take BATCH_CHUNK_SIZE points))
         = Some err"
      by (subst (asm) chunkedWrite.simps) (auto simp: Let_def)
    with "1.IH" [of "take BATCH_CHUNK_SIZE points"] False show ?thesis by auto
  qed
qed

lemma chunkedWrite_cong:
  "writePoints e' = writePoints e \<Longrightarrow> chunkedWrite e' points issued = chunkedWrite e points issued"
proof (induction e points issued rule: chunkedWrite.induct)
  case (1 e points issued)
  show ?case
  proof (cases "points = [] \<or> writePoints e (take BATCH_CHUNK_SIZE points) \<noteq> None")
    case True
    with "1.prems" show ?thesis
      by (subst chunkedWrite.simps, subst (2) chunkedWrite.simps) (auto simp: Let_def)
  next
    case False
    with "1.IH" [of "take BATCH_CHUNK_SIZE points"] "1.prems" show ?thesis
      by (subst chunkedWrite.simps, subst (2) chunkedWrite.simps) (auto simp: Let_def)
  qed
qed

lemma post_batch_unfold:
  assumes "breq_device req = Some device" and "device \<noteq> []"
    and "breq_beats req = Some beats" and "beats \<noteq> []"
    and "first_missing_timestamp beats 0 = None"
    and "h1 = h\<lparr>ppState := registerDevice (ppState h) device
                               (queryLastProcessedTime e device) (env_now e)\<rparr>"
    and "inc = incoming_of req"
    and "new = select_new (existing_of e device inc) inc"
  shows "post_batch e req h =
     (if inc = [] then (RespBatch 0 0 0, h1)
      else if new = [] then (RespBatch (length inc) 0 (length inc), h1)
      else (case writeRawBatch e device new of
              (Some err, issued) \<Rightarrow>
                (Resp500 InfluxWriteFailed, h1\<lparr>raw_writes := raw_writes h @ issued\<rparr>)
            | (None, issued) \<Rightarrow>
                (case triggerReprocess (ppState h1) device (p_timestamp (inc ! 0)) of
                   (Some ex, ds) \<Rightarrow> (Uncaught ex, h1\<lparr>raw_writes := raw_writes h @ issued\<rparr>)
                 | (None, ds) \<Rightarrow>
                     (RespBatch (length inc) (length new) (length inc - length new),
                      h1\<lparr>raw_writes := raw_writes h @ issued, ppState := ds\<rparr>))))"
  using assms(1-5) unfolding assms(6-8)
  by (simp add: post_batch_def Let_def split: prod.splits option.splits)

lemma post_batch_rejected:
  assumes "\<not> (\<exists>device beats. breq_device req = Some device \<and> device \<noteq> []
              \<and> breq_beats req = Some beats \<and> beats \<noteq> []
              \<and> first_missing_timestamp beats 0 = None)"
  shows "\<exists>err. post_batch e req h = (Resp400 err, h)"
  using assms by (auto simp: post_batch_def split: option.splits)


subsection \<open>Counting new points and duplicates\<close>



subsection \<open>Store failures\<close>

text \<open>
  Claim C8, as stated, fails: a dedup query that throws is caught by the handler, which
  goes on with no existing beats. With a store whose query times out and whose writes
  succeed, the request is answered with counts, not with a 500.
\<close>

theorem post_batch_read_failure:
  "queryRawBeats env_read_fails ''H10'' (1000 - 2000) (1000 + 2000) = Inl ''timeout''
   \<and> fst (post_batch env_read_fails req_batch_one hub0) = RespBatch 1 1 0"
  by code_simp

text \<open>
  Claim C8, amended. A request that passes validation and whose write of the new points
  throws is answered 500; a request is never answered 500 when no write throws; and a
  dedup query that throws is handled exactly as one that finds no beat.
\<close>

theorem post_batch_store_failure:
  "(breq_device req = Some device
      \<and> (\<forall>err. fst (post_batch e req h) \<noteq> Resp400 err)
      \<and> select_new (existing_of e device (incoming_of req)) (incoming_of req) \<noteq> []
      \<and> fst (writeRawBatch e device
               (select_new (existing_of e device (incoming_of req)) (incoming_of req))) \<noteq> None
    \<longrightarrow> fst (post_batch e req h) = Resp500 InfluxWriteFailed)
   \<and> ((\<forall>chunk. writePoints e chunk = None) \<longrightarrow> (\<forall>err. fst (post_batch e req h) \<noteq> Resp500 err))
   \<and> post_batch e req h
       = post_batch (e\<lparr>queryRawBeats := (\<lambda>d a b. case queryRawBeats e d a b of
                                           Inl err \<Rightarrow> Inr [] | Inr rows \<Rightarrow> Inr rows)\<rparr>) req h"
proof (intro conjI impI allI)
  define new where "new = select_new (existing_of e device (incoming_of req)) (incoming_of req)"
  assume a: "breq_device req = Some device
      \<and> (\<forall>err. fst (post_batch e req h) \<noteq> Resp400 err)
      \<and> select_new (existing_of e device (incoming_of req)) (incoming_of req) \<noteq> []
      \<and> fst (writeRawBatch e device
               (select_new (existing_of e device (incoming_of req)) (incoming_of req))) \<noteq> None"
  with post_batch_rejected [of req e h] obtain beats where
    v: "breq_device req = Some device" "device \<noteq> []" "breq_beats req = Some beats"
       "beats \<noteq> []" "first_missing_timestamp beats 0 = None"
    by fastforce
  from a have n: "new \<noteq> []" and f: "fst (writeRawBatch e device new) \<noteq> None"
    by (simp_all add: new_def)
  from n have i: "incoming_of req \<noteq> []"
    by (auto simp: new_def select_new_def Let_def split: if_splits)
  obtain m issued where "writeRawBatch e device new = (Some m, issued)"
    using f by (cases "writeRawBatch e device new") auto
  with n i show "fst (post_batch e req h) = Resp500 InfluxWriteFailed"
    by (simp add: post_batch_unfold [OF v refl refl new_def])
next
  fix err
  assume ok: "\<forall>chunk. writePoints e chunk = None"
  show "fst (post_batch e req h) \<noteq> Resp500 err"
  proof
    assume r: "fst (post_batch e req h) = Resp500 err"
    with post_batch_rejected [of req e h] obtain device beats where
      v: "breq_device req = Some device" "device \<noteq> []" "breq_beats req = Some beats"
         "beats \<noteq> []" "first_missing_timestamp beats 0 = None"
      by fastforce
    define new where "new = select_new (existing_of e device (incoming_of req)) (incoming_of req)"
    obtain res issued where w: "writeRawBatch e device new = (res, issued)"
      by (cases "writeRawBatch e device new")
    from r w have "res \<noteq> None"
      by (cases res)
         (auto simp: post_batch_unfold [OF v refl refl new_def]
               split: if_splits prod.splits option.splits)
    with w have "\<exists>m. fst (chunkedWrite e (map (to_influx device) new) []) = Some m"
      by (auto simp: writeRawBatch_def)
    then have "\<exists>chunk. writePoints e chunk \<noteq> None"
      using chunkedWrite_error by blast
    with ok show False by simp
  qed
next
  let ?e = "e\<lparr>queryRawBeats := (\<lambda>d a b. case queryRawBeats e d a b of
                                     Inl err \<Rightarrow> Inr [] | Inr rows \<Rightarrow> Inr rows)\<rparr>"
  have ex: "\<And>device inc. existing_of ?e device inc = existing_of e device inc"
    by (simp add: existing_of_def Let_def split: sum.splits)
  have wr: "\<And>device pts. writeRawBatch ?e device pts = writeRawBatch e device pts"
    unfolding writeRawBatch_def by (rule chunkedWrite_cong) simp
  show "post_batch e req h = post_batch ?e req h"
    by (simp add: post_batch_def ex wr Let_def split: option.splits prod.splits)
qed

text \<open>Claim C8, amended, for a store that refuses every write.\<close>

theorem post_batch_store_failure_witness:
  "breq_device req_batch_one = Some ''H10''
   \<and> writePoints env_write_fails [to_influx ''H10'' (hd (incoming_of req_batch_one))]
       = Some ''write error''
   \<and> fst (post_batch env_write_fails req_batch_one hub0) = Resp500 InfluxWriteFailed"
proof -
  have a: "breq_device req_batch_one = Some ''H10''" by (simp add: req_batch_one_def)
  have b: "\<forall>err. fst (post_batch env_write_fails req_batch_one hub0) \<noteq> Resp400 err"
    by (simp add: post_batch_def req_batch_one_def Let_def split: prod.splits option.splits)
  have c: "select_new (existing_of env_write_fails ''H10'' (incoming_of req_batch_one))
             (incoming_of req_batch_one) \<noteq> []"
    by (simp add: select_new_def existing_of_def env_write_fails_def incoming_of_def
        req_batch_one_def flatten_beats_def)
  have d: "fst (writeRawBatch env_write_fails ''H10''
             (select_new (existing_of env_write_fails ''H10'' (incoming_of req_batch_one))
                (incoming_of req_batch_one))) \<noteq> None"
    by (simp add: writeRawBatch_def chunkedWrite.simps select_new_def existing_of_def
        env_write_fails_def incoming_of_def req_batch_one_def flatten_beats_def Let_def)
  have w: "writePoints env_write_fails [to_influx ''H10'' (hd (incoming_of req_batch_one))]
             = Some ''write error''"
    by (simp add: env_write_fails_def)
  from post_batch_store_failure [of req_batch_one "''H10''" env_write_fails hub0] a b c d w
  show ?thesis by blast
qed

section \<open>The post-processor's high-water mark\<close>

text \<open>
  For a \<open>fromMs\<close> that is a time value, \<open>triggerReprocess device fromMs\<close> leaves an
  unregistered device unregistered, and sets the \<open>lastProcessedMs\<close> of a registered one
  to the minimum of its old value and \<open>fromMs\<close>.
\<close>

lemma triggerReprocess_valid:
  assumes "valid_date fromMs"
  shows "triggerReprocess ds device fromMs =
     (None, case ds device of
              None \<Rightarrow> ds
            | Some st \<Rightarrow> ds(device \<mapsto> st\<lparr>lastProcessedMs := min (lastProcessedMs st) fromMs\<rparr>))"
  using assms
  by (auto simp: triggerReprocess_def min_def fun_upd_idem split: option.splits)


end
